theory Spec2Isabelle
  imports Main "HOL-Library.Sublist"
begin

section \<open>The issue-comment handler of om-github-agent (src/index.ts)\<close>

text \<open>
  The handler registered for \<^verbatim>\<open>issue_comment.created\<close> reads the comment body, looks for
  the phrase \<^verbatim>\<open>@<appName> create-pr\<close> with a regular expression, cuts the text after it,
  applies a second regular expression to that text, and then talks to the hosting API.
  This theory embeds the two regular expressions over a small backtracking matcher that
  follows the ECMAScript matcher (continuation passing, greedy quantifiers, leftmost
  match), the reading of the configured name as pattern source, the string methods the
  handler calls, the RegExp objects with their \<^verbatim>\<open>lastIndex\<close>, and the handler itself with the
  API calls recorded as a trace. The calls of the logger have no part in it.

  Strings. A \<^typ>\<open>char\<close> stands for one UTF-16 code unit below 256 (ASCII and Latin-1);
  comment bodies with larger code units are outside the model.
\<close>

subsection \<open>Characters: white space and case folding\<close>

text \<open>
  The code units below 256 that \<^verbatim>\<open>\s\<close> matches and that \<^verbatim>\<open>String.prototype.trim\<close>
  strips: TAB, LF, VT, FF, CR, SPACE and NO-BREAK SPACE.
\<close>

definition is_space :: "char \<Rightarrow> bool" where
  "is_space c = (c \<in> set [CHR 0x09, CHR 0x0A, CHR 0x0B, CHR 0x0C, CHR 0x0D, CHR 0x20, CHR 0xA0])"

text \<open>
  \<^verbatim>\<open>Canonicalize\<close> of the ECMAScript matcher under the flag \<^verbatim>\<open>i\<close> (no \<^verbatim>\<open>u\<close>): the code unit
  of the upper-case form when that form is a single code unit. Below 256: the letters
  a-z, the Latin-1 letters 0xE0-0xFE except the division sign, the micro sign (to
  U+039C) and y with diaeresis (to U+0178). The result is a code unit, as a number.
\<close>

definition canonicalize :: "char \<Rightarrow> nat" where
  "canonicalize c =
     (let n = (of_char c :: nat) in
      if (97 \<le> n \<and> n \<le> 122) \<or> (224 \<le> n \<and> n \<le> 254 \<and> n \<noteq> 247) then n - 32
      else if n = 181 then 924
      else if n = 255 then 376
      else n)"

subsection \<open>Regular expressions and the backtracking matcher\<close>

text \<open>
  The atoms: a pattern character, a pattern character under the flag \<^verbatim>\<open>i\<close>, \<^verbatim>\<open>\s\<close>, \<^verbatim>\<open>\S\<close>,
  a negated one-character class, the dot (any code unit but a line terminator; below 256
  these are LF and CR) and a class of characters under the flag \<^verbatim>\<open>i\<close> (some member of the
  class has the canonical form of the input character).
\<close>

datatype atom = Lit char | LitI char | Space | NonSpace | Except char | AnyChar | ClassI "char list"

fun atom_ok :: "atom \<Rightarrow> char \<Rightarrow> bool" where
  "atom_ok (Lit a) c = (c = a)"
| "atom_ok (LitI a) c = (canonicalize c = canonicalize a)"
| "atom_ok Space c = is_space c"
| "atom_ok NonSpace c = (\<not> is_space c)"
| "atom_ok (Except a) c = (c \<noteq> a)"
| "atom_ok AnyChar c = (c \<noteq> CHR 0x0A \<and> c \<noteq> CHR 0x0D)"
| "atom_ok (ClassI m) c = list_ex (\<lambda>a. canonicalize a = canonicalize c) m"

text \<open>
  \<open>Plus\<close> is the greedy \<^verbatim>\<open>+\<close> on an atom, \<open>Opt\<close> the greedy \<^verbatim>\<open>?\<close>, \<open>Group n\<close> the
  n-th capturing group, \<open>Alt\<close> the disjunction \<^verbatim>\<open>|\<close>; a non-capturing group is plain
  sequencing.
\<close>

datatype rx = Atom atom | Plus atom | Seq rx rx | Group nat rx | Opt rx | Empty | Alt rx rx

type_synonym captures = "nat \<rightharpoonup> string"

text \<open>
  Zero or more characters, greedy: one more character is tried first, the continuation
  on what is left only when that fails.
\<close>

fun rep :: "(char \<Rightarrow> bool) \<Rightarrow> string \<Rightarrow> (string \<Rightarrow> 'a option) \<Rightarrow> 'a option" where
  "rep p [] k = k []"
| "rep p (x # xs) k =
     (if p x then (case rep p xs k of Some r \<Rightarrow> Some r | None \<Rightarrow> k (x # xs))
      else k (x # xs))"

text \<open>
  The matcher takes the rest of the input, the captures so far and a continuation; it
  returns what the continuation returns on the first way of matching that the
  continuation accepts, in the backtracking order of ECMAScript. An optional part that
  matched the empty string is rejected, as \<^verbatim>\<open>RepeatMatcher\<close> does; a disjunction tries its
  left side first and its right side when the left side, with the continuation, fails.
\<close>

primrec matcher :: "rx \<Rightarrow> string \<Rightarrow> captures \<Rightarrow> (string \<Rightarrow> captures \<Rightarrow> 'a option) \<Rightarrow> 'a option" where
  "matcher (Atom a) s c k =
     (case s of [] \<Rightarrow> None | x # xs \<Rightarrow> if atom_ok a x then k xs c else None)"
| "matcher (Plus a) s c k =
     (case s of [] \<Rightarrow> None
      | x # xs \<Rightarrow> if atom_ok a x then rep (atom_ok a) xs (\<lambda>s'. k s' c) else None)"
| "matcher (Seq r1 r2) s c k = matcher r1 s c (\<lambda>s' c'. matcher r2 s' c' k)"
| "matcher (Group n r) s c k =
     matcher r s c (\<lambda>s' c'. k s' (c'(n \<mapsto> take (length s - length s') s)))"
| "matcher (Opt r) s c k =
     (case matcher r s c (\<lambda>s' c'. if length s' = length s then None else k s' c') of
        Some res \<Rightarrow> Some res
      | None \<Rightarrow> k s c)"
| "matcher Empty s c k = k s c"
| "matcher (Alt r1 r2) s c k =
     (case matcher r1 s c k of Some res \<Rightarrow> Some res | None \<Rightarrow> matcher r2 s c k)"

text \<open>A match that starts at the head of \<open>s\<close>: the matched text and the captures.\<close>

definition match_here :: "rx \<Rightarrow> string \<Rightarrow> (string \<times> captures) option" where
  "match_here r s = matcher r s Map.empty (\<lambda>s' c. Some (take (length s - length s') s, c))"

text \<open>
  \<^verbatim>\<open>RegExpBuiltinExec\<close> without the flags \<^verbatim>\<open>g\<close> and \<^verbatim>\<open>y\<close>: the start index goes up from 0
  until a match is found or the input is exhausted. The result is the \<^verbatim>\<open>index\<close>, element
  0 of the match array and the captures; \<open>None\<close> is \<^verbatim>\<open>null\<close>.
\<close>

fun search :: "rx \<Rightarrow> string \<Rightarrow> nat \<Rightarrow> (nat \<times> string \<times> captures) option" where
  "search r [] i = (case match_here r [] of Some (w, c) \<Rightarrow> Some (i, w, c) | None \<Rightarrow> None)"
| "search r (x # xs) i =
     (case match_here r (x # xs) of
        Some (w, c) \<Rightarrow> Some (i, w, c)
      | None \<Rightarrow> search r xs (Suc i))"

definition exec :: "rx \<Rightarrow> string \<Rightarrow> (nat \<times> string \<times> captures) option" where
  "exec r s = search r s 0"

subsection \<open>String methods\<close>

definition trim :: "string \<Rightarrow> string" where
  "trim s = rev (dropWhile is_space (rev (dropWhile is_space s)))"

text \<open>\<^verbatim>\<open>s.substring(i)\<close>: a negative start counts as 0, a start past the end gives the empty string.\<close>

definition substring :: "string \<Rightarrow> int \<Rightarrow> string" where
  "substring s i = drop (nat i) s"

text \<open>\<^verbatim>\<open>s.indexOf(t)\<close>: the first index at which \<open>t\<close> occurs in \<open>s\<close>, or -1.\<close>

fun indexOf_from :: "string \<Rightarrow> string \<Rightarrow> nat \<Rightarrow> int" where
  "indexOf_from [] t i = (if t = [] then int i else - 1)"
| "indexOf_from (x # xs) t i = (if prefix t (x # xs) then int i else indexOf_from xs t (Suc i))"

definition indexOf :: "string \<Rightarrow> string \<Rightarrow> int" where
  "indexOf s t = indexOf_from s t 0"

subsection \<open>The two regular expressions\<close>

text \<open>A string as a sequence of pattern characters under the flag \<^verbatim>\<open>i\<close>.\<close>

fun literalI :: "string \<Rightarrow> rx" where
  "literalI [] = Empty"
| "literalI (x # xs) = Seq (Atom (LitI x)) (literalI xs)"

text \<open>The characters with a meaning in a pattern, and a name without them.\<close>

definition syntax_chars :: "char list" where
  "syntax_chars = [CHR 0x5C, CHR ''^'', CHR ''$'', CHR ''.'', CHR ''*'', CHR ''+'', CHR ''?'',
     CHR ''('', CHR '')'', CHR ''['', CHR '']'', CHR ''{'', CHR ''}'', CHR ''|'']"

definition plain_name :: "string \<Rightarrow> bool" where
  "plain_name appName = list_all (\<lambda>c. c \<notin> set syntax_chars) appName"

text \<open>
  \<^verbatim>\<open>new RegExp(source, 'i')\<close> reads its first argument as pattern source. \<open>compile\<close> reads the
  part of the pattern syntax that consists of pattern characters, the dot, the disjunction
  \<^verbatim>\<open>|\<close> and classes \<^verbatim>\<open>[...]\<close> whose members are written as themselves (no \<^verbatim>\<open>^\<close> after the
  bracket, no backslash, no \<^verbatim>\<open>-\<close>); every source of this part is a valid pattern. For any
  other source (another syntax character, an unterminated class) the result is \<open>None\<close>:
  the source is outside the embedding, which says nothing about what the handler does then
  (the constructor may read it as another pattern or throw \<^verbatim>\<open>SyntaxError\<close>).

  \<open>readTerms\<close> returns the alternative that starts at the head of the source and, when a
  \<^verbatim>\<open>|\<close> ends it, the disjunction after that; \<open>readClass\<close> collects the members of a class up
  to the closing bracket.
\<close>

definition consTerm :: "atom \<Rightarrow> (rx \<times> rx option) option \<Rightarrow> (rx \<times> rx option) option" where
  "consTerm a r = (case r of None \<Rightarrow> None | Some (alt, d) \<Rightarrow> Some (Seq (Atom a) alt, d))"

definition disjunction :: "rx \<Rightarrow> rx option \<Rightarrow> rx" where
  "disjunction a d = (case d of None \<Rightarrow> a | Some d' \<Rightarrow> Alt a d')"

fun readTerms :: "string \<Rightarrow> (rx \<times> rx option) option"
  and readClass :: "char list \<Rightarrow> string \<Rightarrow> (rx \<times> rx option) option" where
  "readTerms [] = Some (Empty, None)"
| "readTerms (c # cs) =
     (if c = CHR ''|'' then
        (case readTerms cs of None \<Rightarrow> None | Some (a, d) \<Rightarrow> Some (Empty, Some (disjunction a d)))
      else if c = CHR ''.'' then consTerm AnyChar (readTerms cs)
      else if c = CHR ''['' then
        (case cs of [] \<Rightarrow> None | x # xs \<Rightarrow> if x = CHR ''^'' then None else readClass [] cs)
      else if c \<in> set syntax_chars then None
      else consTerm (LitI c) (readTerms cs))"
| "readClass m [] = None"
| "readClass m (c # cs) =
     (if c = CHR '']'' then consTerm (ClassI m) (readTerms cs)
      else if c = CHR 0x5C \<or> c = CHR ''-'' then None
      else readClass (m @ [c]) cs)"

definition compile :: "string \<Rightarrow> rx option" where
  "compile source = (case readTerms source of None \<Rightarrow> None | Some (a, d) \<Rightarrow> Some (disjunction a d))"

definition mentionPhrase :: "string \<Rightarrow> string" where
  "mentionPhrase appName = ''@'' @ appName @ '' create-pr''"

text \<open>
  \<^verbatim>\<open>new RegExp(`@${appName} create-pr`, 'i')\<close>. For a name that takes the source out of the
  syntax that \<open>compile\<close> reads, \<open>mentionRegex\<close> is not specified.
\<close>

definition mentionRegex :: "string \<Rightarrow> rx" where
  "mentionRegex appName = the (compile (mentionPhrase appName))"

definition dquote :: char where
  "dquote = CHR 0x22"

text \<open>
  \<^verbatim>\<open>/(\S+)\s+(\S+)(?:\s+\"([^\"]+)\")?/\<close>, with the content of the non-capturing group,
  \<^verbatim>\<open>\s+\"([^\"]+)\"\<close>, under a name of its own.
\<close>

definition quotedPart :: rx where
  "quotedPart =
     Seq (Plus Space)
       (Seq (Atom (Lit dquote))
         (Seq (Group 3 (Plus (Except dquote)))
           (Atom (Lit dquote))))"

definition commandRegex :: rx where
  "commandRegex =
     Seq (Group 1 (Plus NonSpace))
       (Seq (Plus Space)
         (Seq (Group 2 (Plus NonSpace))
           (Opt quotedPart)))"

subsection \<open>The parsing section of the handler (index.ts, lines 76-98)\<close>

record ParsedCommand =
  sourceBranch :: string
  targetBranch :: string
  title :: string

text \<open>
  The three ways out of the parsing section: the mention test fails and nothing happens,
  the usage comment is posted, or the handler goes on to the API calls with the three
  strings.
\<close>

datatype ParseOutcome = NotMentioned | Malformed | Command ParsedCommand

text \<open>
  \<^verbatim>\<open>mentionRegex.test(commentBody)\<close> and \<^verbatim>\<open>commentBody.match(mentionRegex)\<close> run the same
  expression, which has neither \<^verbatim>\<open>g\<close> nor \<^verbatim>\<open>y\<close>, on the same string: one \<open>exec\<close>
  (\<open>parsing\<close> below makes the two calls on an object with its \<^verbatim>\<open>lastIndex\<close>, and lemma
  \<open>parsing_stateless\<close> shows that it agrees with this definition).
  The result is \<^verbatim>\<open>commandPart\<close>, or \<open>None\<close> when the test fails.
\<close>

definition commandPart :: "string \<Rightarrow> string \<Rightarrow> string option" where
  "commandPart appName commentBody =
     (case exec (mentionRegex appName) commentBody of
        None \<Rightarrow> None
      | Some (index, m0, g) \<Rightarrow>
          Some (trim (substring commentBody (int index + int (length m0)))))"

text \<open>
  \<^verbatim>\<open>parts[3] || commandPart.substring(parts[0].indexOf(parts[2]) + parts[2].length).trim()\<close>:
  an undefined or empty \<^verbatim>\<open>parts[3]\<close> gives the right-hand side.
\<close>

definition prTitle :: "string \<Rightarrow> string \<Rightarrow> string \<Rightarrow> string option \<Rightarrow> string" where
  "prTitle cp p0 p2 p3 =
     (case p3 of
        Some t \<Rightarrow>
          if t \<noteq> [] then t
          else trim (substring cp (indexOf p0 p2 + int (length p2)))
      | None \<Rightarrow> trim (substring cp (indexOf p0 p2 + int (length p2))))"

text \<open>
  The match array of \<open>commandRegex\<close> always has four elements, so \<^verbatim>\<open>parts.length >= 3\<close>
  holds whenever \<^verbatim>\<open>parts\<close> is not null. Groups 1 and 2 are not optional: a match sets both
  (lemma \<open>commandRegex_groups\<close> below), and the last case of the inner \<open>case\<close> is never taken.
\<close>

definition parse :: "string \<Rightarrow> string \<Rightarrow> ParseOutcome" where
  "parse appName commentBody =
     (case commandPart appName commentBody of
        None \<Rightarrow> NotMentioned
      | Some cp \<Rightarrow>
          (case exec commandRegex cp of
             None \<Rightarrow> Malformed
           | Some (i, p0, g) \<Rightarrow>
               (case (g 1, g 2) of
                  (Some sb, Some tb) \<Rightarrow>
                    (let t = prTitle cp p0 tb (g 3) in
                     if sb = [] \<or> tb = [] \<or> t = [] then Malformed
                     else Command \<lparr>sourceBranch = sb, targetBranch = tb, title = t\<rparr>)
                | _ \<Rightarrow> Malformed)))"

subsection \<open>The API calls and the handler\<close>

text \<open>
  The fields of the event that the handler reads, and the three calls it makes:
  \<open>GetBranch owner repo branch\<close>, \<open>PullsCreate owner repo title head base body\<close> and
  \<open>CreateComment owner repo issue_number body\<close>.
\<close>

record event =
  commentBody :: string
  commentAuthor :: string
  owner :: string
  repo :: string
  issue_number :: int

datatype call =
    GetBranch (gb_owner: string) (gb_repo: string) (gb_branch: string)
  | PullsCreate (pc_owner: string) (pc_repo: string) (pc_title: string) (pc_head: string)
      (pc_base: string) (pc_body: string)
  | CreateComment (cc_owner: string) (cc_repo: string) (cc_issue_number: int) (cc_body: string)

text \<open>What a rejected call throws: \<^verbatim>\<open>error.message\<close> and \<^verbatim>\<open>error.status\<close> (which may be absent).\<close>

record api_error =
  message :: string
  status :: "int option"

text \<open>
  The client answers each call with an error or with a value; for \<open>PullsCreate\<close> the
  value is \<^verbatim>\<open>data.html_url\<close>.
\<close>

type_synonym octokit = "call \<Rightarrow> api_error + string"

text \<open>A client that accepts every call; the creation of a pull request returns the link \<open>url\<close>.\<close>

definition accepting :: "string \<Rightarrow> octokit" where
  "accepting url c = Inr url"

definition usageText :: "string \<Rightarrow> string" where
  "usageText appName =
     ''Invalid command format. Please use: @'' @ appName @
     '' create-pr <source-branch> <target-branch> '' @ [dquote] @ ''<PR title>'' @ [dquote]"

definition errorMessage :: "api_error \<Rightarrow> string" where
  "errorMessage e =
     ''Failed to create pull request. Error: '' @ message e @ ''.'' @
     (if status e = Some 422 then
        '' This could be due to non-existent branches, no differences between branches, or insufficient permissions.''
      else if status e = Some 404 then '' One or more branches were not found.''
      else [])"

text \<open>
  A run of the handler: the calls it made, in order, and the error it threw, if any.
  A call outside \<^verbatim>\<open>try\<close> that is rejected ends the run with that error.
\<close>

type_synonym run = "call list \<times> api_error option"

definition finish :: "octokit \<Rightarrow> call list \<Rightarrow> call \<Rightarrow> run" where
  "finish api done c =
     (done @ [c], case api c of Inl e \<Rightarrow> Some e | Inr _ \<Rightarrow> None)"

text \<open>The \<^verbatim>\<open>catch\<close> block: one comment with the error message.\<close>

definition catch_block :: "event \<Rightarrow> octokit \<Rightarrow> call list \<Rightarrow> api_error \<Rightarrow> run" where
  "catch_block ev api done e =
     finish api done (CreateComment (owner ev) (repo ev) (issue_number ev) (errorMessage e))"

text \<open>The \<^verbatim>\<open>try\<close> block with its \<^verbatim>\<open>catch\<close>.\<close>

definition execute :: "string \<Rightarrow> event \<Rightarrow> octokit \<Rightarrow> ParsedCommand \<Rightarrow> run" where
  "execute appName ev api cmd =
     (let gb = GetBranch (owner ev) (repo ev) (sourceBranch cmd) in
      case api gb of
        Inl e \<Rightarrow> catch_block ev api [gb] e
      | Inr _ \<Rightarrow>
          (let pc = PullsCreate (owner ev) (repo ev) (title cmd) (sourceBranch cmd)
                      (targetBranch cmd)
                      (''Pull request created by @'' @ commentAuthor ev @ '' via '' @ appName @ ''.'') in
           case api pc of
             Inl e \<Rightarrow> catch_block ev api [gb, pc] e
           | Inr html_url \<Rightarrow>
               (let ok = CreateComment (owner ev) (repo ev) (issue_number ev)
                           (''Successfully created pull request: '' @ html_url) in
                case api ok of
                  Inl e \<Rightarrow> catch_block ev api [gb, pc, ok] e
                | Inr _ \<Rightarrow> ([gb, pc, ok], None))))"

definition handler :: "string \<Rightarrow> event \<Rightarrow> octokit \<Rightarrow> run" where
  "handler appName ev api =
     (case parse appName (commentBody ev) of
        NotMentioned \<Rightarrow> ([], None)
      | Malformed \<Rightarrow>
          finish api [] (CreateComment (owner ev) (repo ev) (issue_number ev) (usageText appName))
      | Command cmd \<Rightarrow> execute appName ev api cmd)"

text \<open>The bodies of the comments a run posted, and whether it made a given kind of call.\<close>

fun comments :: "call list \<Rightarrow> string list" where
  "comments [] = []"
| "comments (CreateComment ow rp n b # cs) = b # comments cs"
| "comments (c # cs) = comments cs"

fun is_GetBranch :: "call \<Rightarrow> bool" where
  "is_GetBranch (GetBranch ow rp b) = True"
| "is_GetBranch c = False"

fun is_PullsCreate :: "call \<Rightarrow> bool" where
  "is_PullsCreate (PullsCreate ow rp t h b d) = True"
| "is_PullsCreate c = False"

subsection \<open>RegExp objects and their \<^verbatim>\<open>lastIndex\<close>\<close>

text \<open>
  A RegExp object carries state: \<^verbatim>\<open>lastIndex\<close>, which \<^verbatim>\<open>test\<close>, \<^verbatim>\<open>exec\<close> and \<^verbatim>\<open>match\<close> read and
  write when the object has the flag \<^verbatim>\<open>g\<close> or \<^verbatim>\<open>y\<close>. The parsing section calls \<^verbatim>\<open>test\<close> and
  then \<^verbatim>\<open>match\<close> on one object. This subsection embeds the objects with that state, so
  that what the section reads of it and leaves in it is a matter of proof. (The flag \<^verbatim>\<open>i\<close>
  is in the atoms of the pattern.)
\<close>

record regexp =
  pattern :: rx
  global :: bool
  sticky :: bool
  lastIndex :: nat

text \<open>\<^verbatim>\<open>new RegExp(source, flags)\<close> or a literal: \<^verbatim>\<open>lastIndex\<close> starts at 0.\<close>

definition RegExp :: "rx \<Rightarrow> string \<Rightarrow> regexp" where
  "RegExp p flags =
     \<lparr>pattern = p, global = (CHR ''g'' \<in> set flags), sticky = (CHR ''y'' \<in> set flags),
      lastIndex = 0\<rparr>"

text \<open>
  \<^verbatim>\<open>RegExpBuiltinExec\<close>: the search starts at \<^verbatim>\<open>lastIndex\<close> with \<^verbatim>\<open>g\<close> or \<^verbatim>\<open>y\<close> and at 0
  otherwise; with \<^verbatim>\<open>y\<close> only the start index itself is tried. With \<^verbatim>\<open>g\<close> or \<^verbatim>\<open>y\<close> the object
  is left with \<^verbatim>\<open>lastIndex\<close> at the end of the match, or at 0 when there is none.
\<close>

definition regexp_exec :: "regexp \<Rightarrow> string \<Rightarrow> (nat \<times> string \<times> captures) option \<times> regexp" where
  "regexp_exec R S =
     (let start = (if global R \<or> sticky R then lastIndex R else 0) in
      if length S < start then
        (None, if global R \<or> sticky R then R\<lparr>lastIndex := 0\<rparr> else R)
      else
        (case (if sticky R then
                 (case match_here (pattern R) (drop start S) of
                    None \<Rightarrow> None
                  | Some (w, c) \<Rightarrow> Some (start, w, c))
               else search (pattern R) (drop start S) start) of
           None \<Rightarrow> (None, if global R \<or> sticky R then R\<lparr>lastIndex := 0\<rparr> else R)
         | Some (i, w, c) \<Rightarrow>
             (Some (i, w, c),
              if global R \<or> sticky R then R\<lparr>lastIndex := i + length w\<rparr> else R)))"

text \<open>\<^verbatim>\<open>R.test(S)\<close>: whether \<^verbatim>\<open>exec\<close> finds a match, and the object after the call.\<close>

definition regexp_test :: "regexp \<Rightarrow> string \<Rightarrow> bool \<times> regexp" where
  "regexp_test R S = (case regexp_exec R S of (m, R') \<Rightarrow> (m \<noteq> None, R'))"

text \<open>
  What \<^verbatim>\<open>S.match(R)\<close> returns: \<^verbatim>\<open>null\<close>, the array of \<^verbatim>\<open>exec\<close> (with \<^verbatim>\<open>index\<close>, element 0 and
  the captures) or, with the flag \<^verbatim>\<open>g\<close>, the array of all matched texts, which has no
  \<^verbatim>\<open>index\<close>.
\<close>

datatype match_array = Null | ExecArray nat string captures | AllArray "string list"

text \<open>
  The loop of \<^verbatim>\<open>match\<close> with the flag \<^verbatim>\<open>g\<close>: \<^verbatim>\<open>exec\<close> is called until it returns \<^verbatim>\<open>null\<close>, and
  \<^verbatim>\<open>lastIndex\<close> is moved one further after an empty match. Every round moves \<^verbatim>\<open>lastIndex\<close>
  forward, and \<^verbatim>\<open>exec\<close> returns \<^verbatim>\<open>null\<close> once it is past the end of the text, so that
  \<open>length S + 2\<close> rounds are enough; the first argument counts them down.
\<close>

fun match_loop :: "nat \<Rightarrow> regexp \<Rightarrow> string \<Rightarrow> string list \<Rightarrow> string list \<times> regexp" where
  "match_loop 0 R S A = (A, R)"
| "match_loop (Suc n) R S A =
     (case regexp_exec R S of
        (None, R') \<Rightarrow> (A, R')
      | (Some (i, w, c), R') \<Rightarrow>
          match_loop n (if w = [] then R'\<lparr>lastIndex := Suc (lastIndex R')\<rparr> else R') S (A @ [w]))"

definition string_match :: "string \<Rightarrow> regexp \<Rightarrow> match_array \<times> regexp" where
  "string_match S R =
     (if global R then
        (case match_loop (length S + 2) (R\<lparr>lastIndex := 0\<rparr>) S [] of
           (A, R') \<Rightarrow> (if A = [] then Null else AllArray A, R'))
      else
        (case regexp_exec R S of
           (None, R') \<Rightarrow> (Null, R')
         | (Some (i, w, c), R') \<Rightarrow> (ExecArray i w c, R')))"

text \<open>
  Lines 85 to 98 on the elements of \<^verbatim>\<open>parts\<close>: element 0 and elements 1 to 3, each a string
  or undefined.
\<close>

definition resolve ::
  "string \<Rightarrow> string \<Rightarrow> string option \<Rightarrow> string option \<Rightarrow> string option \<Rightarrow> ParseOutcome" where
  "resolve cp p0 p1 p2 p3 =
     (case (p1, p2) of
        (Some sb, Some tb) \<Rightarrow>
          (let t = prTitle cp p0 tb p3 in
           if sb = [] \<or> tb = [] \<or> t = [] then Malformed
           else Command \<lparr>sourceBranch = sb, targetBranch = tb, title = t\<rparr>)
      | _ \<Rightarrow> Malformed)"

text \<open>
  The parsing section from line 78 on, with the two objects as state: \<open>mR\<close> is the object
  of line 76 and \<open>cR\<close> the object that the literal of line 82 creates. The result is the
  outcome and the two objects as the section leaves them. A \<^verbatim>\<open>match\<close> that is \<^verbatim>\<open>null\<close> or has
  no \<^verbatim>\<open>index\<close> ends the section with nothing done.
\<close>

definition parsing :: "regexp \<Rightarrow> regexp \<Rightarrow> string \<Rightarrow> ParseOutcome \<times> regexp \<times> regexp" where
  "parsing mR cR body =
     (case regexp_test mR body of
        (t, mR1) \<Rightarrow>
          if t then
            (case string_match body mR1 of
               (ExecArray index m0 g, mR2) \<Rightarrow>
                 (let cp = trim (substring body (int index + int (length m0))) in
                  case string_match cp cR of
                    (Null, cR1) \<Rightarrow> (Malformed, mR2, cR1)
                  | (ExecArray i p0 g', cR1) \<Rightarrow> (resolve cp p0 (g' 1) (g' 2) (g' 3), mR2, cR1)
                  | (AllArray xs, cR1) \<Rightarrow>
                      (if 3 \<le> length xs then
                         resolve cp (xs ! 0) (Some (xs ! 1)) (Some (xs ! 2))
                           (if 3 < length xs then Some (xs ! 3) else None)
                       else Malformed, mR2, cR1))
             | (Null, mR2) \<Rightarrow> (NotMentioned, mR2, cR)
             | (AllArray xs, mR2) \<Rightarrow> (NotMentioned, mR2, cR))
          else (NotMentioned, mR1, cR))"

text \<open>Lines 76 to 98 of one run: the handler creates both objects itself.\<close>

definition parse_run :: "string \<Rightarrow> string \<Rightarrow> ParseOutcome \<times> regexp \<times> regexp" where
  "parse_run appName body =
     parsing (RegExp (mentionRegex appName) ''i'') (RegExp commandRegex []) body"

subsection \<open>Notions used to state the properties\<close>

text \<open>The white-space delimited tokens of a string.\<close>

fun tokens :: "string \<Rightarrow> string list" where
  "tokens [] = []"
| "tokens (x # xs) =
     (if is_space x then tokens xs
      else (case xs of
              [] \<Rightarrow> [[x]]
            | y # ys \<Rightarrow>
                if is_space y then [x] # tokens xs
                else (case tokens xs of [] \<Rightarrow> [[x]] | t # ts \<Rightarrow> (x # t) # ts)))"

text \<open>A string with no white space at either end.\<close>

definition trimmed :: "string \<Rightarrow> bool" where
  "trimmed s = (s = [] \<or> (\<not> is_space (hd s) \<and> \<not> is_space (last s)))"

text \<open>
  The title that the optional part of \<open>commandRegex\<close> takes from the text after the
  second token: that text starts with white space, a double quote, one or more
  characters other than a double quote, and a double quote.
\<close>

definition quotedTitle :: "string \<Rightarrow> string option" where
  "quotedTitle s =
     (if takeWhile is_space s = [] then None
      else (case dropWhile is_space s of
              [] \<Rightarrow> None
            | x # r \<Rightarrow>
                if x \<noteq> dquote then None
                else if takeWhile (\<lambda>c. c \<noteq> dquote) r = [] \<or> dropWhile (\<lambda>c. c \<noteq> dquote) r = []
                  then None
                else Some (takeWhile (\<lambda>c. c \<noteq> dquote) r)))"

text \<open>
  Two strings that differ in case only, and a phrase that occurs somewhere in a text up
  to case.
\<close>

definition same_ignoring_case :: "string \<Rightarrow> string \<Rightarrow> bool" where
  "same_ignoring_case a b = list_all2 (\<lambda>x y. canonicalize x = canonicalize y) a b"

definition contains_phrase :: "string \<Rightarrow> string \<Rightarrow> bool" where
  "contains_phrase phrase text =
     (\<exists>pre mid post. text = pre @ mid @ post \<and> same_ignoring_case phrase mid)"

fun prefixI :: "string \<Rightarrow> string \<Rightarrow> bool" where
  "prefixI [] s = True"
| "prefixI (x # xs) [] = False"
| "prefixI (x # xs) (y # ys) = (canonicalize y = canonicalize x \<and> prefixI xs ys)"

fun occursI :: "string \<Rightarrow> string \<Rightarrow> bool" where
  "occursI p [] = prefixI p []"
| "occursI p (y # ys) = (prefixI p (y # ys) \<or> occursI p ys)"

section \<open>The matcher on the two expressions\<close>

subsection \<open>Greedy repetition\<close>

lemma rep_none:
  "(\<And>j. j \<le> length (takeWhile p s) \<Longrightarrow> k (drop j s) = None) \<Longrightarrow> rep p s k = None"
proof (induction s)
  case Nil
  then show ?case by simp
next
  case (Cons x xs)
  have k0: "k (x # xs) = None" using Cons.prems [of 0] by simp
  show ?case
  proof (cases "p x")
    case True
    have "rep p xs k = None"
    proof (rule Cons.IH)
      fix j assume "j \<le> length (takeWhile p xs)"
      then show "k (drop j xs) = None" using Cons.prems [of "Suc j"] True by simp
    qed
    then show ?thesis using True k0 by simp
  next
    case False
    then show ?thesis using k0 by simp
  qed
qed

lemma rep_greedy:
  "list_all p xs \<Longrightarrow> ys = [] \<or> \<not> p (hd ys) \<Longrightarrow> k ys = Some r \<Longrightarrow> rep p (xs @ ys) k = Some r"
proof (induction xs)
  case Nil
  then show ?case by (cases ys) auto
next
  case (Cons x xs)
  then show ?case by simp
qed

lemma takeWhile_run:
  "list_all p xs \<Longrightarrow> ys = [] \<or> \<not> p (hd ys) \<Longrightarrow> takeWhile p (xs @ ys) = xs"
  by (induction xs) (auto simp: takeWhile_eq_Nil_iff neq_Nil_conv)

lemma plus_greedy:
  assumes "xs \<noteq> []" "list_all (atom_ok a) xs" "ys = [] \<or> \<not> atom_ok a (hd ys)" "k ys c = Some r"
  shows "matcher (Plus a) (xs @ ys) c k = Some r"
proof -
  obtain x xs' where xs: "xs = x # xs'" using assms(1) by (cases xs) auto
  have "rep (atom_ok a) (xs' @ ys) (\<lambda>s'. k s' c) = Some r"
    using assms xs by (intro rep_greedy) auto
  then show ?thesis using assms xs by simp
qed

lemma plus_none:
  assumes "list_all (atom_ok a) xs" "ys = [] \<or> \<not> atom_ok a (hd ys)"
    and "\<And>j. 0 < j \<Longrightarrow> j \<le> length xs \<Longrightarrow> k (drop j xs @ ys) c = None"
  shows "matcher (Plus a) (xs @ ys) c k = None"
proof (cases xs)
  case Nil
  then show ?thesis using assms(2) by (cases ys) auto
next
  case (Cons x xs')
  have tw: "takeWhile (atom_ok a) (xs' @ ys) = xs'"
    using assms(1,2) Cons by (intro takeWhile_run) auto
  have "rep (atom_ok a) (xs' @ ys) (\<lambda>s'. k s' c) = None"
  proof (rule rep_none)
    fix j assume "j \<le> length (takeWhile (atom_ok a) (xs' @ ys))"
    then have j: "j \<le> length xs'" using tw by simp
    then have "k (drop (Suc j) xs @ ys) c = None" using assms(3) [of "Suc j"] Cons by simp
    then show "k (drop j (xs' @ ys)) c = None" using Cons j by simp
  qed
  then show ?thesis using Cons assms(1) by simp
qed


lemma atom_hit: "atom_ok a x \<Longrightarrow> matcher (Atom a) (x # xs) c k = k xs c"
  by simp

lemma atom_miss: "s = [] \<or> \<not> atom_ok a (hd s) \<Longrightarrow> matcher (Atom a) s c k = None"
  by (cases s) auto

lemmas matcher_Seq = matcher.simps(3)
lemmas matcher_Group = matcher.simps(4)
lemmas matcher_Opt = matcher.simps(5)

declare matcher.simps [simp del]

subsection \<open>The optional quoted part\<close>

lemma dquote_not_space: "\<not> is_space dquote"
  by (simp add: is_space_def dquote_def)

lemma list_all_takeWhile: "list_all p (takeWhile p s)"
  by (induction s) auto

lemma dropWhile_boundary: "dropWhile p s = [] \<or> \<not> p (hd (dropWhile p s))"
  using hd_dropWhile [of p s] by blast

lemma quotedTitle_SomeD:
  assumes "quotedTitle s = Some q"
  shows "\<exists>w post. s = w @ dquote # q @ dquote # post \<and> w \<noteq> [] \<and> list_all is_space w
            \<and> q \<noteq> [] \<and> dquote \<notin> set q"
proof -
  define w where "w = takeWhile is_space s"
  define r0 where "r0 = dropWhile is_space s"
  have s: "s = w @ r0" by (simp add: w_def r0_def)
  from assms have w: "w \<noteq> []" unfolding w_def by (auto simp: quotedTitle_def split: if_splits)
  from assms obtain r where r: "r0 = dquote # r" unfolding r0_def
    by (auto simp: quotedTitle_def split: if_splits list.splits)
  define p where "p = dropWhile (\<lambda>c. c \<noteq> dquote) r"
  from assms r w have q: "q = takeWhile (\<lambda>c. c \<noteq> dquote) r" "q \<noteq> []" and d: "p \<noteq> []"
    unfolding w_def r0_def p_def by (auto simp: quotedTitle_def split: if_splits)
  have "p = [] \<or> \<not> (hd p \<noteq> dquote)" unfolding p_def by (rule dropWhile_boundary)
  with d obtain post where post: "p = dquote # post" by (cases p) auto
  have "r = q @ p" by (simp add: q(1) p_def)
  then have "s = w @ dquote # q @ dquote # post" using s r post by simp
  moreover have "list_all is_space w" unfolding w_def by (rule list_all_takeWhile)
  moreover have "dquote \<notin> set q" using q(1) by (auto dest: set_takeWhileD)
  ultimately show ?thesis using w q(2) by blast
qed

lemma group_quoted:
  assumes "w \<noteq> []" "list_all is_space w" "q \<noteq> []" "dquote \<notin> set q"
    and "k post (c(3 \<mapsto> q)) = Some r"
  shows "matcher quotedPart (w @ dquote # q @ dquote # post) c k = Some r"
  unfolding quotedPart_def matcher_Seq
proof (rule plus_greedy)
  show "w \<noteq> []" by fact
  show "list_all (atom_ok Space) w" using assms(2) by (simp add: list_all_iff)
  show "dquote # q @ dquote # post = [] \<or> \<not> atom_ok Space (hd (dquote # q @ dquote # post))"
    using dquote_not_space by simp
  have "matcher (Group 3 (Plus (Except dquote))) (q @ dquote # post) c
          (\<lambda>s' c'. matcher (Atom (Lit dquote)) s' c' k) = Some r"
    unfolding matcher_Group
  proof (rule plus_greedy)
    show "q \<noteq> []" by fact
    show "list_all (atom_ok (Except dquote)) q" using assms(4) by (auto simp: list_all_iff)
    show "dquote # post = [] \<or> \<not> atom_ok (Except dquote) (hd (dquote # post))" by simp
    show "matcher (Atom (Lit dquote)) (dquote # post)
            (c(3 \<mapsto> take (length (q @ dquote # post) - length (dquote # post)) (q @ dquote # post))) k = Some r"
      using assms(5) by (simp add: atom_hit)
  qed
  then show "matcher (Atom (Lit dquote)) (dquote # q @ dquote # post) c
          (\<lambda>s' c'. matcher (Group 3 (Plus (Except dquote))) s' c'
             (\<lambda>s' c'. matcher (Atom (Lit dquote)) s' c' k)) = Some r"
    by (simp add: atom_hit)
qed

lemma group_none:
  assumes "quotedTitle s = None"
  shows "matcher quotedPart s c k = None"
proof -
  define w where "w = takeWhile is_space s"
  define r0 where "r0 = dropWhile is_space s"
  have s: "s = w @ r0" by (simp add: w_def r0_def)
  let ?K = "\<lambda>s1 c1. matcher (Atom (Lit dquote)) s1 c1
               (\<lambda>s2 c2. matcher (Group 3 (Plus (Except dquote))) s2 c2
                  (\<lambda>s3 c3. matcher (Atom (Lit dquote)) s3 c3 k))"
  have allw: "list_all is_space w" unfolding w_def by (rule list_all_takeWhile)
  have bnd: "r0 = [] \<or> \<not> is_space (hd r0)" unfolding r0_def by (rule dropWhile_boundary)
  have "matcher (Plus Space) (w @ r0) c ?K = None"
  proof (rule plus_none)
    show "list_all (atom_ok Space) w" using allw by (simp add: list_all_iff)
    show "r0 = [] \<or> \<not> atom_ok Space (hd r0)" using bnd by simp
  next
    fix j assume j: "0 < j" "j \<le> length w"
    show "?K (drop j w @ r0) c = None"
    proof (cases "j < length w")
      case True
      then obtain y ys where d: "drop j w = y # ys" by (cases "drop j w") auto
      then have "y \<in> set w" by (metis in_set_dropD list.set_intros(1))
      then have "is_space y" using allw by (simp add: list_all_iff)
      then have "y \<noteq> dquote" using dquote_not_space by auto
      then show ?thesis using d by (simp add: atom_miss)
    next
      case False
      then have dj: "drop j w = []" using j by simp
      have w: "w \<noteq> []" using j by auto
      show ?thesis
      proof (cases r0)
        case Nil
        then show ?thesis using dj by (simp add: atom_miss)
      next
        case (Cons x r)
        show ?thesis
        proof (cases "x = dquote")
          case False
          then show ?thesis using dj Cons by (simp add: atom_miss)
        next
          case True
          define q where "q = takeWhile (\<lambda>c. c \<noteq> dquote) r"
          define p where "p = dropWhile (\<lambda>c. c \<noteq> dquote) r"
          have r: "r = q @ p" by (simp add: q_def p_def)
          have qp: "q = [] \<or> p = []" using assms w Cons True
            unfolding q_def p_def w_def r0_def
            by (auto simp: quotedTitle_def split: if_splits)
          have "matcher (Plus (Except dquote)) (q @ p) c
                  (\<lambda>s' c'. matcher (Atom (Lit dquote)) s' (c'(3 \<mapsto> take (length r - length s') r)) k) = None"
          proof (rule plus_none)
            show "list_all (atom_ok (Except dquote)) q"
              using list_all_takeWhile [of "\<lambda>c. c \<noteq> dquote" r] by (simp add: q_def list_all_iff)
            show "p = [] \<or> \<not> atom_ok (Except dquote) (hd p)"
              using dropWhile_boundary [of "\<lambda>c. c \<noteq> dquote" r] by (simp add: p_def)
          next
            fix i assume i: "0 < i" "i \<le> length q"
            then have "q \<noteq> []" by auto
            with qp have p: "p = []" by simp
            show "matcher (Atom (Lit dquote)) (drop i q @ p)
                    (c(3 \<mapsto> take (length r - length (drop i q @ p)) r)) k = None"
            proof (cases "drop i q")
              case Nil
              then show ?thesis using p by (simp add: atom_miss)
            next
              case (Cons y ys)
              then have "y \<in> set q" by (metis in_set_dropD list.set_intros(1))
              then have "y \<noteq> dquote"
                using list_all_takeWhile [of "\<lambda>c. c \<noteq> dquote" r] by (auto simp: q_def list_all_iff)
              then show ?thesis using Cons by (simp add: atom_miss)
            qed
          qed
          then show ?thesis using dj Cons True r by (simp add: atom_hit matcher_Group)
        qed
      qed
    qed
  qed
  then show ?thesis using s by (simp add: quotedPart_def matcher_Seq)
qed

subsection \<open>The command expression on a text of two or more tokens, and of one\<close>

lemma command_prefix:
  assumes t1: "t1 \<noteq> []" "list_all (\<lambda>c. \<not> is_space c) t1"
    and w: "w \<noteq> []" "list_all is_space w"
    and t2: "t2 \<noteq> []" "list_all (\<lambda>c. \<not> is_space c) t2"
    and rest: "rest = [] \<or> is_space (hd rest)"
    and opt: "matcher (Opt quotedPart) rest [1 \<mapsto> t1, 2 \<mapsto> t2] k = Some r"
  shows "matcher commandRegex (t1 @ w @ t2 @ rest) Map.empty k = Some r"
  unfolding commandRegex_def matcher_Seq matcher_Group
proof (rule plus_greedy)
  show "t1 \<noteq> []" by fact
  show "list_all (atom_ok NonSpace) t1" using t1(2) by (simp add: list_all_iff)
  show "w @ t2 @ rest = [] \<or> \<not> atom_ok NonSpace (hd (w @ t2 @ rest))"
    using w by (cases w) auto
  show "matcher (Plus Space) (w @ t2 @ rest)
     (Map.empty(1 \<mapsto> take (length (t1 @ w @ t2 @ rest) - length (w @ t2 @ rest)) (t1 @ w @ t2 @ rest)))
     (\<lambda>s' c'. matcher (Plus NonSpace) s' c'
          (\<lambda>s'a c'a. matcher (Opt quotedPart) s'a (c'a(2 \<mapsto> take (length s' - length s'a) s')) k)) = Some r"
  proof (rule plus_greedy)
    show "w \<noteq> []" by fact
    show "list_all (atom_ok Space) w" using w(2) by (simp add: list_all_iff)
    show "t2 @ rest = [] \<or> \<not> atom_ok Space (hd (t2 @ rest))"
      using t2 by (cases t2) auto
    show "matcher (Plus NonSpace) (t2 @ rest)
       (Map.empty(1 \<mapsto> take (length (t1 @ w @ t2 @ rest) - length (w @ t2 @ rest)) (t1 @ w @ t2 @ rest)))
       (\<lambda>s'a c'a. matcher (Opt quotedPart) s'a (c'a(2 \<mapsto> take (length (t2 @ rest) - length s'a) (t2 @ rest))) k) = Some r"
    proof (rule plus_greedy)
      show "t2 \<noteq> []" by fact
      show "list_all (atom_ok NonSpace) t2" using t2(2) by (simp add: list_all_iff)
      show "rest = [] \<or> \<not> atom_ok NonSpace (hd rest)" using rest by simp
      show "matcher (Opt quotedPart) rest
         ((Map.empty(1 \<mapsto> take (length (t1 @ w @ t2 @ rest) - length (w @ t2 @ rest)) (t1 @ w @ t2 @ rest)))
            (2 \<mapsto> take (length (t2 @ rest) - length rest) (t2 @ rest))) k = Some r"
        using opt by simp
    qed
  qed
qed

lemma opt_unquoted:
  assumes "quotedTitle rest = None"
  shows "matcher (Opt quotedPart) rest c k = k rest c"
  by (simp add: matcher_Opt group_none [OF assms])

lemma opt_quoted:
  assumes "w \<noteq> []" "list_all is_space w" "q \<noteq> []" "dquote \<notin> set q"
    and "k post (c(3 \<mapsto> q)) = Some r"
  shows "matcher (Opt quotedPart) (w @ dquote # q @ dquote # post) c k = Some r"
proof -
  have "matcher quotedPart (w @ dquote # q @ dquote # post) c
          (\<lambda>s' c'. if length s' = length (w @ dquote # q @ dquote # post) then None else k s' c') = Some r"
    using assms by (intro group_quoted) simp_all
  then show ?thesis by (simp add: matcher_Opt)
qed

lemma command_match_unquoted:
  assumes "t1 \<noteq> []" "list_all (\<lambda>c. \<not> is_space c) t1" "w \<noteq> []" "list_all is_space w"
    "t2 \<noteq> []" "list_all (\<lambda>c. \<not> is_space c) t2" "rest = [] \<or> is_space (hd rest)"
    and "quotedTitle rest = None"
  shows "match_here commandRegex (t1 @ w @ t2 @ rest) = Some (t1 @ w @ t2, [1 \<mapsto> t1, 2 \<mapsto> t2])"
  unfolding match_here_def
  using assms by (intro command_prefix) (simp_all add: opt_unquoted)

lemma command_match_quoted:
  assumes "t1 \<noteq> []" "list_all (\<lambda>c. \<not> is_space c) t1" "w \<noteq> []" "list_all is_space w"
    "t2 \<noteq> []" "list_all (\<lambda>c. \<not> is_space c) t2"
    and "v \<noteq> []" "list_all is_space v" "q \<noteq> []" "dquote \<notin> set q"
  shows "match_here commandRegex (t1 @ w @ t2 @ v @ dquote # q @ dquote # post)
           = Some (t1 @ w @ t2 @ v @ dquote # q @ [dquote], [1 \<mapsto> t1, 2 \<mapsto> t2, 3 \<mapsto> q])"
  unfolding match_here_def
proof (rule command_prefix)
  show "v @ dquote # q @ dquote # post = [] \<or> is_space (hd (v @ dquote # q @ dquote # post))"
    using assms(7,8) by (cases v) auto
  show "matcher (Opt quotedPart) (v @ dquote # q @ dquote # post) [1 \<mapsto> t1, 2 \<mapsto> t2]
     (\<lambda>s' c. Some (take (length (t1 @ w @ t2 @ v @ dquote # q @ dquote # post) - length s')
                     (t1 @ w @ t2 @ v @ dquote # q @ dquote # post), c))
    = Some (t1 @ w @ t2 @ v @ dquote # q @ [dquote], [1 \<mapsto> t1, 2 \<mapsto> t2, 3 \<mapsto> q])"
    using assms by (intro opt_quoted) simp_all
qed (use assms in simp_all)

lemma search_hit: "match_here r s = Some (m, g) \<Longrightarrow> search r s i = Some (i, m, g)"
  by (cases s) auto

lemma search_none:
  "(\<And>j. j \<le> length s \<Longrightarrow> match_here r (drop j s) = None) \<Longrightarrow> search r s i = None"
proof (induction s arbitrary: i)
  case Nil
  then show ?case using Nil [of 0] by simp
next
  case (Cons x xs)
  have "match_here r (x # xs) = None" using Cons.prems [of 0] by simp
  moreover have "search r xs (Suc i) = None"
  proof (rule Cons.IH)
    fix j assume "j \<le> length xs"
    then show "match_here r (drop j xs) = None" using Cons.prems [of "Suc j"] by simp
  qed
  ultimately show ?case by simp
qed

lemma plus_miss: "s = [] \<or> \<not> atom_ok a (hd s) \<Longrightarrow> matcher (Plus a) s c k = None"
  by (cases s) (auto simp: matcher.simps)

lemma command_one_token:
  assumes "list_all (\<lambda>c. \<not> is_space c) s"
  shows "exec commandRegex s = None"
  unfolding exec_def
proof (rule search_none)
  fix j
  have all: "list_all (atom_ok NonSpace) (drop j s)"
    using assms by (auto simp: list_all_iff dest: in_set_dropD)
  have "matcher (Plus NonSpace) (drop j s @ []) Map.empty
          (\<lambda>s' c'. matcher (Seq (Plus Space) (Seq (Group 2 (Plus NonSpace)) (Opt quotedPart))) s'
             (c'(1 \<mapsto> take (length (drop j s) - length s') (drop j s)))
             (\<lambda>s' c. Some (take (length (drop j s) - length s') (drop j s), c))) = None"
  proof (rule plus_none)
    show "list_all (atom_ok NonSpace) (drop j s)" by (rule all)
    show "[] = [] \<or> \<not> atom_ok NonSpace (hd [])" by simp
  next
    fix i k 
    have "list_all (atom_ok NonSpace) (drop i (drop j s))"
      using assms by (auto simp: list_all_iff dest: in_set_dropD)
    then have "matcher (Plus Space) (drop i (drop j s)) c k = None"
      for c and k :: "string \<Rightarrow> captures \<Rightarrow> (string \<times> captures) option"
      by (intro plus_miss) (cases "drop i (drop j s)", simp_all)
    then show "matcher (Seq (Plus Space) (Seq (Group 2 (Plus NonSpace)) (Opt quotedPart))) (drop i (drop j s) @ [])
        (Map.empty(1 \<mapsto> take (length (drop j s) - length (drop i (drop j s) @ [])) (drop j s)))
        (\<lambda>s' c. Some (take (length (drop j s) - length s') (drop j s), c)) = None"
      by (simp add: matcher_Seq)
  qed
  then show "match_here commandRegex (drop j s) = None"
    by (simp add: match_here_def commandRegex_def matcher_Seq matcher_Group)
qed

subsection \<open>The mention expression\<close>

lemma prefixI_length: "prefixI p s \<Longrightarrow> length p \<le> length s"
  by (induction p s rule: prefixI.induct) auto

lemma prefixI_refl: "prefixI p (p @ r)"
  by (induction p) auto

lemma literalI_matcher:
  "matcher (literalI p) s c k = (if prefixI p s then k (drop (length p) s) c else None)"
proof (induction p arbitrary: s)
  case Nil
  then show ?case by (simp add: matcher.simps)
next
  case (Cons x xs)
  then show ?case by (cases s) (simp_all add: matcher.simps)
qed

lemma match_here_literalI:
  "match_here (literalI p) s = (if prefixI p s then Some (take (length p) s, Map.empty) else None)"
  using prefixI_length [of p s] by (simp add: match_here_def literalI_matcher)

lemma search_literalI_none: "search (literalI p) s i = None \<longleftrightarrow> \<not> occursI p s"
  by (induction s arbitrary: i) (auto simp: match_here_literalI)

lemma prefixI_iff:
  "prefixI p s \<longleftrightarrow> (\<exists>mid post. s = mid @ post \<and> same_ignoring_case p mid)"
proof (induction p s rule: prefixI.induct)
  case (1 s)
  then show ?case by (simp add: same_ignoring_case_def)
next
  case (2 x xs)
  then show ?case by (simp add: same_ignoring_case_def)
next
  case (3 x xs y ys)
  show ?case
  proof
    assume "prefixI (x # xs) (y # ys)"
    then have xy: "canonicalize y = canonicalize x" and "prefixI xs ys" by simp_all
    with 3 obtain mid post where "ys = mid @ post" "same_ignoring_case xs mid" by blast
    then have "y # ys = (y # mid) @ post \<and> same_ignoring_case (x # xs) (y # mid)"
      using xy by (simp add: same_ignoring_case_def)
    then show "\<exists>mid post. y # ys = mid @ post \<and> same_ignoring_case (x # xs) mid" by blast
  next
    assume "\<exists>mid post. y # ys = mid @ post \<and> same_ignoring_case (x # xs) mid"
    then obtain mid post where m: "y # ys = mid @ post" "same_ignoring_case (x # xs) mid" by blast
    from m(2) obtain z zs where z: "mid = z # zs" "canonicalize x = canonicalize z"
      "same_ignoring_case xs zs"
      by (auto simp: same_ignoring_case_def list_all2_Cons1)
    with m(1) have "y = z" "ys = zs @ post" by simp_all
    with z 3 show "prefixI (x # xs) (y # ys)" by auto
  qed
qed

lemma occursI_iff: "occursI p s \<longleftrightarrow> contains_phrase p s"
proof (induction s)
  case Nil
  then show ?case by (auto simp: contains_phrase_def prefixI_iff)
next
  case (Cons y ys)
  show ?case
  proof
    assume "occursI p (y # ys)"
    then consider "prefixI p (y # ys)" | "occursI p ys" by auto
    then show "contains_phrase p (y # ys)"
    proof cases
      case 1
      then obtain mid post where "y # ys = [] @ mid @ post" "same_ignoring_case p mid"
        by (auto simp: prefixI_iff)
      then show ?thesis unfolding contains_phrase_def by blast
    next
      case 2
      with Cons obtain pre mid post where "ys = pre @ mid @ post" "same_ignoring_case p mid"
        by (auto simp: contains_phrase_def)
      then have "y # ys = (y # pre) @ mid @ post \<and> same_ignoring_case p mid" by simp
      then show ?thesis unfolding contains_phrase_def by blast
    qed
  next
    assume "contains_phrase p (y # ys)"
    then obtain pre mid post where m: "y # ys = pre @ mid @ post" "same_ignoring_case p mid"
      by (auto simp: contains_phrase_def)
    show "occursI p (y # ys)"
    proof (cases pre)
      case Nil
      with m have "prefixI p (y # ys)" by (auto simp: prefixI_iff)
      then show ?thesis by simp
    next
      case (Cons z zs)
      with m have "ys = zs @ mid @ post" by simp
      with m(2) have "contains_phrase p ys" unfolding contains_phrase_def by blast
      with Cons.IH show ?thesis by simp
    qed
  qed
qed

lemma readTerms_plain:
  "list_all (\<lambda>c. c \<notin> set syntax_chars) s \<Longrightarrow> readTerms s = Some (literalI s, None)"
proof (induction s)
  case Nil
  then show ?case by simp
next
  case (Cons c cs)
  then have "c \<notin> set syntax_chars" and ih: "readTerms cs = Some (literalI cs, None)" by simp_all
  then have "c \<noteq> CHR ''|''" "c \<noteq> CHR ''.''" "c \<noteq> CHR ''[''"
    by (auto simp: syntax_chars_def)
  then show ?case using \<open>c \<notin> set syntax_chars\<close> ih by (simp add: consTerm_def)
qed

lemma mentionRegex_plain:
  assumes "plain_name appName"
  shows "mentionRegex appName = literalI (mentionPhrase appName)"
proof -
  have "list_all (\<lambda>c. c \<notin> set syntax_chars) (mentionPhrase appName)"
    using assms by (simp add: plain_name_def mentionPhrase_def syntax_chars_def)
  then show ?thesis
    by (simp add: mentionRegex_def compile_def readTerms_plain disjunction_def)
qed

lemma commandPart_None_iff:
  assumes "plain_name appName"
  shows "commandPart appName body = None \<longleftrightarrow> \<not> contains_phrase (mentionPhrase appName) body"
proof -
  have "commandPart appName body = None \<longleftrightarrow> search (literalI (mentionPhrase appName)) body 0 = None"
    by (auto simp: commandPart_def exec_def mentionRegex_plain [OF assms] split: option.splits)
  then show ?thesis by (simp add: search_literalI_none occursI_iff)
qed

lemma commandPart_prefix:
  assumes "plain_name appName"
  shows "commandPart appName (mentionPhrase appName @ r) = Some (trim r)"
proof -
  have "match_here (literalI (mentionPhrase appName)) (mentionPhrase appName @ r)
          = Some (mentionPhrase appName, Map.empty)"
    by (simp add: match_here_literalI prefixI_refl)
  then have "exec (mentionRegex appName) (mentionPhrase appName @ r)
          = Some (0, mentionPhrase appName, Map.empty)"
    unfolding exec_def mentionRegex_plain [OF assms] by (rule search_hit)
  then show ?thesis by (simp add: commandPart_def substring_def)
qed

subsection \<open>Trimming\<close>

lemma dropWhile_run: "list_all p xs \<Longrightarrow> dropWhile p (xs @ ys) = dropWhile p ys"
  by (induction xs) auto

lemma trim_leading: "list_all is_space w \<Longrightarrow> trim (w @ s) = trim s"
  by (simp add: trim_def dropWhile_run)

lemma trim_trimmed: "trimmed s \<Longrightarrow> trim s = s"
proof (cases s)
  case Nil
  then show ?thesis by (simp add: trim_def)
next
  case (Cons x xs)
  assume "trimmed s"
  with Cons have h: "\<not> is_space x" and l: "\<not> is_space (last s)" by (simp_all add: trimmed_def)
  have "dropWhile is_space s = s" using h Cons by simp
  moreover have "dropWhile is_space (rev s) = rev s"
  proof (cases "rev s")
    case Nil
    then show ?thesis by simp
  next
    case (Cons a as)
    then have "hd (rev s) = a" by simp
    moreover have "hd (rev s) = last s" by (simp only: hd_rev)
    ultimately have "last s = a" by simp
    then show ?thesis using l Cons by simp
  qed
  ultimately show ?thesis by (simp add: trim_def)
qed

lemma trimmed_trim: "trimmed (trim s)"
proof -
  define y where "y = dropWhile is_space s"
  define z where "z = dropWhile is_space (rev y)"
  have t: "trim s = rev z" by (simp add: trim_def y_def z_def)
  show ?thesis
  proof (cases "z = []")
    case True
    then show ?thesis by (simp add: t trimmed_def)
  next
    case False
    have hz: "\<not> is_space (hd z)" using False hd_dropWhile [of is_space "rev y"] by (simp add: z_def)
    have "z = drop (length (takeWhile is_space (rev y))) (rev y)"
      unfolding z_def by (rule dropWhile_eq_drop)
    moreover from False have ry: "rev y \<noteq> []" by (auto simp: z_def)
    ultimately have "last z = last (rev y)" using False by (metis drop_eq_Nil last_drop not_le)
    also have "\<dots> = hd y" using ry by (simp add: last_rev)
    finally have lz: "last z = hd y" .
    have "y \<noteq> []" using ry by simp
    then have "\<not> is_space (hd y)" using hd_dropWhile [of is_space s] by (simp add: y_def)
    then show ?thesis using hz lz False by (simp add: t trimmed_def hd_rev last_rev)
  qed
qed

lemma commandPart_trimmed: "commandPart appName body = Some cp \<Longrightarrow> trimmed cp"
  by (auto simp: commandPart_def trimmed_trim split: option.splits)

subsection \<open>Tokens and the shape of a trimmed text\<close>

lemma tokens_space: "list_all is_space w \<Longrightarrow> tokens (w @ s) = tokens s"
  by (induction w) simp_all

lemma tokens_Nil_iff: "tokens s = [] \<longleftrightarrow> list_all is_space s"
proof (induction s)
  case Nil
  then show ?case by simp
next
  case (Cons x xs)
  show ?case
  proof (cases "is_space x")
    case True
    then show ?thesis using Cons by simp
  next
    case False
    then show ?thesis by (simp split: list.splits)
  qed
qed


lemma tokens_first:
  "t \<noteq> [] \<Longrightarrow> list_all (\<lambda>c. \<not> is_space c) t \<Longrightarrow> s = [] \<or> is_space (hd s)
     \<Longrightarrow> tokens (t @ s) = t # tokens s"
proof (induction t)
  case Nil
  then show ?case by simp
next
  case (Cons x t)
  show ?case
  proof (cases t)
    case Nil
    show ?thesis
    proof (cases s)
      case Nil
      then show ?thesis using \<open>t = []\<close> Cons.prems by simp
    next
      case (Cons y ys)
      then show ?thesis using \<open>t = []\<close> Cons.prems by simp
    qed
  next
    case (Cons y ys)
    then have ih: "tokens (t @ s) = t # tokens s" using Cons.IH Cons.prems by simp
    have "tokens (x # y # ys @ s) = (x # y # ys) # tokens s"
      using ih Cons Cons.prems by (simp del: tokens.simps add: tokens.simps(2) [of x])
    then show ?thesis using Cons by simp
  qed
qed

lemma trimmed_cases [consumes 1, case_names empty one more]:
  assumes "trimmed s"
  obtains "s = []"
  | "s \<noteq> []" "list_all (\<lambda>c. \<not> is_space c) s"
  | t1 w t2 rest where "s = t1 @ w @ t2 @ rest"
      "t1 \<noteq> []" "list_all (\<lambda>c. \<not> is_space c) t1" "w \<noteq> []" "list_all is_space w"
      "t2 \<noteq> []" "list_all (\<lambda>c. \<not> is_space c) t2" "rest = [] \<or> is_space (hd rest)"
      "rest = [] \<or> \<not> is_space (last rest)"
proof (cases "s = []")
  case True
  then show ?thesis by (rule that(1))
next
  case False
  with assms have hs: "\<not> is_space (hd s)" and ls: "\<not> is_space (last s)"
    by (simp_all add: trimmed_def)
  define t1 where "t1 = takeWhile (\<lambda>c. \<not> is_space c) s"
  define r1 where "r1 = dropWhile (\<lambda>c. \<not> is_space c) s"
  have s1: "s = t1 @ r1" by (simp add: t1_def r1_def)
  have a1: "list_all (\<lambda>c. \<not> is_space c) t1" unfolding t1_def by (rule list_all_takeWhile)
  have n1: "t1 \<noteq> []" using False hs by (cases s) (auto simp: t1_def)
  show ?thesis
  proof (cases "r1 = []")
    case True
    then show ?thesis using s1 a1 False by (intro that(2)) simp_all
  next
    case r1: False
    have h1: "is_space (hd r1)"
      using hd_dropWhile [of "\<lambda>c. \<not> is_space c" s] r1 unfolding r1_def by blast
    define w where "w = takeWhile is_space r1"
    define r2 where "r2 = dropWhile is_space r1"
    have s2: "r1 = w @ r2" by (simp add: w_def r2_def)
    have aw: "list_all is_space w" unfolding w_def by (rule list_all_takeWhile)
    have nw: "w \<noteq> []" using r1 h1 by (cases r1) (auto simp: w_def)
    have r2: "r2 \<noteq> []"
    proof
      assume "r2 = []"
      then have "last s = last w" using s1 s2 nw by simp
      moreover have "last w \<in> set w" using nw by simp
      ultimately show False using aw ls by (simp add: list_all_iff)
    qed
    have h2: "\<not> is_space (hd r2)"
      using hd_dropWhile [of is_space r1] r2 unfolding r2_def by blast
    define t2 where "t2 = takeWhile (\<lambda>c. \<not> is_space c) r2"
    define rest where "rest = dropWhile (\<lambda>c. \<not> is_space c) r2"
    have s3: "r2 = t2 @ rest" by (simp add: t2_def rest_def)
    have a2: "list_all (\<lambda>c. \<not> is_space c) t2" unfolding t2_def by (rule list_all_takeWhile)
    have n2: "t2 \<noteq> []" using r2 h2 by (cases r2) (auto simp: t2_def)
    have b: "rest = [] \<or> is_space (hd rest)"
      using hd_dropWhile [of "\<lambda>c. \<not> is_space c" r2] unfolding rest_def by blast
    have s4: "s = t1 @ w @ t2 @ rest" using s1 s2 s3 by simp
    have tr: "rest = [] \<or> \<not> is_space (last rest)"
    proof (cases "rest = []")
      case True
      then show ?thesis by simp
    next
      case False
      then have "last s = last rest" by (simp add: s4)
      then show ?thesis using ls by simp
    qed
    show ?thesis using s4 n1 a1 nw aw n2 a2 b tr by (rule that(3))
  qed
qed

subsection \<open>The index of the second token\<close>

lemma indexOf_from_self: "t \<noteq> [] \<Longrightarrow> indexOf_from t t i = int i"
  by (cases t) auto

lemma indexOf_from_space:
  assumes "t2 \<noteq> []" "list_all (\<lambda>c. \<not> is_space c) t2" "list_all is_space w"
  shows "indexOf_from (w @ t2) t2 i = int (i + length w)"
  using assms(3)
proof (induction w arbitrary: i)
  case Nil
  then show ?case using assms(1) by (simp add: indexOf_from_self)
next
  case (Cons y w)
  obtain x xs where t2: "t2 = x # xs" using assms(1) by (cases t2) auto
  then have "x \<noteq> y" using assms(2) Cons.prems by auto
  then have "\<not> prefix t2 (y # w @ t2)" using t2 by simp
  then show ?case using Cons by simp
qed

lemma indexOf_from_token:
  assumes "t2 \<noteq> []" "list_all (\<lambda>c. \<not> is_space c) t2" "w \<noteq> []" "list_all is_space w"
  shows "\<not> sublist t2 t1 \<Longrightarrow> indexOf_from (t1 @ w @ t2) t2 i = int (i + length t1 + length w)"
proof (induction t1 arbitrary: i)
  case Nil
  then show ?case using assms by (simp add: indexOf_from_space)
next
  case (Cons x t1)
  have ns: "\<not> sublist t2 t1" using Cons.prems by (simp add: sublist_Cons_right)
  have np: "\<not> prefix t2 (x # t1)" using Cons.prems by (simp add: sublist_Cons_right)
  have "\<not> prefix t2 ((x # t1) @ w @ t2)"
  proof
    assume "prefix t2 ((x # t1) @ w @ t2)"
    then have "prefix t2 (x # t1) \<or> (\<exists>us. t2 = (x # t1) @ us \<and> prefix us (w @ t2))"
      by (simp only: prefix_append)
    with np obtain us where us: "t2 = (x # t1) @ us" "prefix us (w @ t2)" by blast
    have "us \<noteq> []" using us(1) np by auto
    then obtain u us' where u: "us = u # us'" by (cases us) auto
    obtain y w' where w: "w = y # w'" using assms(3) by (cases w) auto
    from us(2) u w have "u = y" by simp
    then have "is_space u" using assms(4) w by simp
    moreover have "u \<in> set t2" using us(1) u by simp
    ultimately show False using assms(2) by (simp add: list_all_iff)
  qed
  then show ?case using Cons.IH [OF ns] by simp
qed

lemma indexOf_second:
  assumes "t2 \<noteq> []" "list_all (\<lambda>c. \<not> is_space c) t2" "w \<noteq> []" "list_all is_space w"
    and "\<not> sublist t2 t1"
  shows "indexOf (t1 @ w @ t2) t2 = int (length t1 + length w)"
  using indexOf_from_token [OF assms, of 0] by (simp add: indexOf_def)

subsection \<open>The outcome of the parsing section, by the shape of the text after the mention\<close>


lemma parse_few:
  assumes "commandPart appName body = Some cp" and "cp = [] \<or> list_all (\<lambda>c. \<not> is_space c) cp"
  shows "parse appName body = Malformed"
proof -
  have "list_all (\<lambda>c. \<not> is_space c) cp" using assms(2) by auto
  then have "exec commandRegex cp = None" by (rule command_one_token)
  then show ?thesis using assms(1) by (simp add: parse_def)
qed


lemma parse_unquoted:
  assumes "commandPart appName body = Some (t1 @ w @ t2 @ rest)"
    and "t1 \<noteq> []" "list_all (\<lambda>c. \<not> is_space c) t1" "w \<noteq> []" "list_all is_space w"
    "t2 \<noteq> []" "list_all (\<lambda>c. \<not> is_space c) t2" "rest = [] \<or> is_space (hd rest)"
    and "quotedTitle rest = None"
  shows "parse appName body =
     (if trim (substring (t1 @ w @ t2 @ rest) (indexOf (t1 @ w @ t2) t2 + int (length t2))) = []
      then Malformed
      else Command \<lparr>sourceBranch = t1, targetBranch = t2,
             title = trim (substring (t1 @ w @ t2 @ rest) (indexOf (t1 @ w @ t2) t2 + int (length t2)))\<rparr>)"
proof -
  have "match_here commandRegex (t1 @ w @ t2 @ rest) = Some (t1 @ w @ t2, [1 \<mapsto> t1, 2 \<mapsto> t2])"
    using assms(2-) by (rule command_match_unquoted)
  then have "exec commandRegex (t1 @ w @ t2 @ rest) = Some (0, t1 @ w @ t2, [1 \<mapsto> t1, 2 \<mapsto> t2])"
    unfolding exec_def by (rule search_hit)
  then show ?thesis using assms(1,2,6) by (simp add: parse_def prTitle_def Let_def)
qed

lemma trailing_text:
  assumes "t2 \<noteq> []" "list_all (\<lambda>c. \<not> is_space c) t2" "w \<noteq> []" "list_all is_space w"
    and "\<not> sublist t2 t1"
  shows "trim (substring (t1 @ w @ t2 @ rest) (indexOf (t1 @ w @ t2) t2 + int (length t2)))
           = trim rest"
proof -
  have "nat (int (length t1 + length w) + int (length t2)) = length t1 + length w + length t2"
    by simp
  then show ?thesis by (simp add: indexOf_second [OF assms] substring_def)
qed

lemma tokens_two:
  assumes "t1 \<noteq> []" "list_all (\<lambda>c. \<not> is_space c) t1" "w \<noteq> []" "list_all is_space w"
      "t2 \<noteq> []" "list_all (\<lambda>c. \<not> is_space c) t2" "rest = [] \<or> is_space (hd rest)"
  shows "tokens (t1 @ w @ t2 @ rest) = t1 # t2 # tokens rest"
proof -
  have "tokens (t1 @ w @ t2 @ rest) = t1 # tokens (w @ t2 @ rest)"
    using assms(1-4) by (intro tokens_first) (cases w, simp_all)+
  also have "tokens (w @ t2 @ rest) = tokens (t2 @ rest)" using assms(4) by (rule tokens_space)
  also have "tokens (t2 @ rest) = t2 # tokens rest" using assms(5-7) by (rule tokens_first)
  finally show ?thesis .
qed

lemma quotedTitle_Nil: "quotedTitle [] = None"
  by (simp add: quotedTitle_def)

lemma unquoted_title:
  assumes "commandPart appName body = Some (t1 @ w @ t2 @ rest)"
    and "t1 \<noteq> []" "list_all (\<lambda>c. \<not> is_space c) t1" "w \<noteq> []" "list_all is_space w"
    "t2 \<noteq> []" "list_all (\<lambda>c. \<not> is_space c) t2" "rest = [] \<or> is_space (hd rest)"
    and "quotedTitle rest = None" and "\<not> sublist t2 t1" and "trim rest \<noteq> []"
  shows "parse appName body = Command \<lparr>sourceBranch = t1, targetBranch = t2, title = trim rest\<rparr>"
  using parse_unquoted [OF assms(1-9)] trailing_text [OF assms(6,7,4,5,10), of rest] assms(11)
  by simp

lemma commandRegex_groups:
  assumes "commandPart appName body = Some cp" and "exec commandRegex cp = Some (i, p0, g)"
  shows "\<exists>a b. g 1 = Some a \<and> g 2 = Some b \<and> a \<noteq> [] \<and> b \<noteq> []"
proof -
  have "trimmed cp" using assms(1) by (rule commandPart_trimmed)
  then show ?thesis
  proof (cases rule: trimmed_cases)
    case empty
    then have "exec commandRegex cp = None" by (intro command_one_token) simp
    then show ?thesis using assms(2) by simp
  next
    case one
    then have "exec commandRegex cp = None" by (intro command_one_token)
    then show ?thesis using assms(2) by simp
  next
    case (more a w b rest)
    show ?thesis
    proof (cases "quotedTitle rest")
      case None
      have "match_here commandRegex (a @ w @ b @ rest) = Some (a @ w @ b, [1 \<mapsto> a, 2 \<mapsto> b])"
        using more(2-8) None by (rule command_match_unquoted)
      then have "exec commandRegex cp = Some (0, a @ w @ b, [1 \<mapsto> a, 2 \<mapsto> b])"
        unfolding exec_def more(1) by (rule search_hit)
      then show ?thesis using assms(2) more(2,6) by auto
    next
      case (Some q)
      then obtain v post where r: "rest = v @ dquote # q @ dquote # post" "v \<noteq> []"
        "list_all is_space v" "q \<noteq> []" "dquote \<notin> set q"
        using quotedTitle_SomeD by blast
      have "match_here commandRegex (a @ w @ b @ v @ dquote # q @ dquote # post)
              = Some (a @ w @ b @ v @ dquote # q @ [dquote], [1 \<mapsto> a, 2 \<mapsto> b, 3 \<mapsto> q])"
        using more(2-7) r(2-) by (rule command_match_quoted)
      then have "exec commandRegex cp
              = Some (0, a @ w @ b @ v @ dquote # q @ [dquote], [1 \<mapsto> a, 2 \<mapsto> b, 3 \<mapsto> q])"
        unfolding exec_def more(1) r(1) by (rule search_hit)
      then show ?thesis using assms(2) more(2,6) by auto
    qed
  qed
qed

subsection \<open>Characters of the mention phrase\<close>

lemma canon_at: "canonicalize y = canonicalize CHR ''@'' \<Longrightarrow> y = CHR ''@''"
proof -
  assume a: "canonicalize y = canonicalize CHR ''@''"
  have c: "canonicalize CHR ''@'' = 64" by (simp add: canonicalize_def)
  have "(of_char y :: nat) = 64"
    using a unfolding c canonicalize_def Let_def by (auto split: if_splits)
  then have "(of_char y :: nat) = of_char CHR ''@''" by simp
  then show ?thesis by (simp only: of_char_eq_iff)
qed

lemma prefixI_at: "prefixI (CHR ''@'' # p) s \<Longrightarrow> s \<noteq> [] \<and> hd s = CHR ''@''"
  by (cases s) (auto dest: canon_at)

lemma occursI_no_at: "CHR ''@'' \<notin> set s \<Longrightarrow> \<not> occursI (CHR ''@'' # p) s"
proof (induction s)
  case Nil
  then show ?case by simp
next
  case (Cons y ys)
  then show ?case using prefixI_at [of p "y # ys"] by auto
qed

lemma occursI_skip:
  "CHR ''@'' \<notin> set pre \<Longrightarrow> occursI (CHR ''@'' # p) (pre @ s) = occursI (CHR ''@'' # p) s"
proof (induction pre)
  case Nil
  then show ?case by simp
next
  case (Cons y ys)
  then show ?case using prefixI_at [of p "y # ys @ s"] by auto
qed

lemma prefixI_same: "prefixI (n @ p) (n @ s) = prefixI p s"
  by (induction n) auto

lemma space_not_c: "is_space z \<Longrightarrow> canonicalize z \<noteq> canonicalize CHR ''c''"
  by (auto simp: is_space_def canonicalize_def)

lemma space_canon: "is_space y \<Longrightarrow> canonicalize y = canonicalize CHR '' '' \<Longrightarrow> y = CHR '' ''"
  by (auto simp: is_space_def canonicalize_def)

lemma prefixI_separator:
  assumes "list_all is_space sep" "sep \<noteq> '' ''"
  shows "\<not> prefixI '' create-pr'' (sep @ ''create-pr'' @ post)"
proof (cases sep)
  case Nil
  then show ?thesis by (simp add: canonicalize_def)
next
  case (Cons y sep')
  show ?thesis
  proof (cases sep')
    case Nil
    then have "y \<noteq> CHR '' ''" using Cons assms(2) by simp
    moreover have "is_space y" using Cons assms(1) by simp
    ultimately have "canonicalize y \<noteq> canonicalize CHR '' ''" using space_canon by blast
    then show ?thesis using Cons by simp
  next
    case (Cons z zs)
    then have "is_space z" using \<open>sep = y # sep'\<close> assms(1) by simp
    then have "canonicalize z \<noteq> canonicalize CHR ''c''" by (rule space_not_c)
    then show ?thesis using Cons \<open>sep = y # sep'\<close> by simp
  qed
qed

lemma at_not_space: "is_space c \<Longrightarrow> c \<noteq> CHR ''@''"
  by (auto simp: is_space_def)

lemma prefixI_append_cases:
  "prefixI p (u @ s) \<Longrightarrow>
     prefixI p u \<or> (s \<noteq> [] \<and> length u < length p \<and> canonicalize (hd s) = canonicalize (p ! length u))"
proof (induction p u rule: prefixI.induct)
  case (1 u)
  then show ?case by simp
next
  case (2 x xs)
  then show ?case by (cases s) auto
next
  case (3 x xs y ys)
  then show ?case by auto
qed

lemma prefixI_straddle:
  assumes "CHR ''@'' \<notin> set p" "u \<noteq> []" "\<not> prefixI (CHR ''@'' # p) u"
  shows "\<not> prefixI (CHR ''@'' # p) (u @ CHR ''@'' # s)"
proof
  assume "prefixI (CHR ''@'' # p) (u @ CHR ''@'' # s)"
  from prefixI_append_cases [OF this] assms(3)
  have l: "length u < length (CHR ''@'' # p)"
    and c: "canonicalize CHR ''@'' = canonicalize ((CHR ''@'' # p) ! length u)" by simp_all
  obtain k where k: "length u = Suc k" using assms(2) by (cases u) auto
  then have "k < length p" using l by simp
  moreover have "canonicalize (p ! k) = canonicalize CHR ''@''" using c k by simp
  then have "p ! k = CHR ''@''" by (rule canon_at)
  ultimately show False using assms(1) by (metis nth_mem)
qed

lemma occursI_before:
  assumes "CHR ''@'' \<notin> set p"
  shows "\<not> occursI (CHR ''@'' # p) pre \<Longrightarrow>
         occursI (CHR ''@'' # p) (pre @ CHR ''@'' # s) = occursI (CHR ''@'' # p) (CHR ''@'' # s)"
proof (induction pre)
  case Nil
  then show ?case by simp
next
  case (Cons y ys)
  then have a: "\<not> prefixI (CHR ''@'' # p) (y # ys)" and b: "\<not> occursI (CHR ''@'' # p) ys"
    by simp_all
  have "\<not> prefixI (CHR ''@'' # p) ((y # ys) @ CHR ''@'' # s)"
    using assms _ a by (rule prefixI_straddle) simp
  then show ?case using Cons.IH [OF b] by auto
qed

subsection \<open>RegExp objects without the flags \<^verbatim>\<open>g\<close> and \<^verbatim>\<open>y\<close>\<close>

lemma regexp_exec_plain:
  assumes "\<not> global R" "\<not> sticky R"
  shows "regexp_exec R S = (exec (pattern R) S, R)"
  using assms by (cases "search (pattern R) S 0") (auto simp: regexp_exec_def exec_def)

lemma regexp_test_plain:
  assumes "\<not> global R" "\<not> sticky R"
  shows "regexp_test R S = (exec (pattern R) S \<noteq> None, R)"
  by (simp add: regexp_test_def regexp_exec_plain [OF assms])

lemma string_match_plain:
  assumes "\<not> global R" "\<not> sticky R"
  shows "string_match S R =
     (case exec (pattern R) S of None \<Rightarrow> Null | Some (i, w, c) \<Rightarrow> ExecArray i w c, R)"
  using assms(1) by (auto simp: string_match_def regexp_exec_plain [OF assms] split: option.splits)

lemma parsing_plain:
  assumes "\<not> global mR" "\<not> sticky mR" "\<not> global cR" "\<not> sticky cR"
  shows "parsing mR cR body =
     ((case exec (pattern mR) body of
         None \<Rightarrow> NotMentioned
       | Some (index, m0, g) \<Rightarrow>
           (let cp = trim (substring body (int index + int (length m0))) in
            case exec (pattern cR) cp of
              None \<Rightarrow> Malformed
            | Some (i, p0, g') \<Rightarrow> resolve cp p0 (g' 1) (g' 2) (g' 3))), mR, cR)"
  by (auto simp: parsing_def regexp_test_plain [OF assms(1,2)] string_match_plain [OF assms(1,2)]
      string_match_plain [OF assms(3,4)] Let_def split: option.splits)

lemma parsing_stateless:
  "parsing ((RegExp (mentionRegex appName) ''i'')\<lparr>lastIndex := a\<rparr>)
           ((RegExp commandRegex [])\<lparr>lastIndex := b\<rparr>) body
     = (parse appName body,
        (RegExp (mentionRegex appName) ''i'')\<lparr>lastIndex := a\<rparr>,
        (RegExp commandRegex [])\<lparr>lastIndex := b\<rparr>)"
proof -
  let ?m = "(RegExp (mentionRegex appName) ''i'')\<lparr>lastIndex := a\<rparr>"
  let ?c = "(RegExp commandRegex [])\<lparr>lastIndex := b\<rparr>"
  have f: "\<not> global ?m" "\<not> sticky ?m" "\<not> global ?c" "\<not> sticky ?c"
    by (simp_all add: RegExp_def)
  have p: "pattern ?m = mentionRegex appName" "pattern ?c = commandRegex"
    by (simp_all add: RegExp_def)
  show ?thesis
    unfolding parsing_plain [OF f] p
    by (auto simp: parse_def commandPart_def resolve_def Let_def split: option.splits)
qed

text \<open>With the flag \<^verbatim>\<open>g\<close> the same calls do carry state: a second \<^verbatim>\<open>test\<close> on one object fails.\<close>

lemma test_with_g_moves_lastIndex:
  "regexp_test (RegExp (literalI ''a'') ''g'') ''a''
     = (True, (RegExp (literalI ''a'') ''g'')\<lparr>lastIndex := 1\<rparr>) \<and>
   regexp_test ((RegExp (literalI ''a'') ''g'')\<lparr>lastIndex := 1\<rparr>) ''a''
     = (False, RegExp (literalI ''a'') ''g'')"
  by (simp add: regexp_test_def regexp_exec_def RegExp_def match_here_def matcher.simps)

subsection \<open>The rounds of \<^verbatim>\<open>match\<close> with the flag \<^verbatim>\<open>g\<close>\<close>

lemma rep_result: "rep p s k = Some res \<Longrightarrow> \<exists>s'. k s' = Some res"
  by (induction s) (auto split: if_splits option.splits)

lemma matcher_result: "matcher r s c k = Some res \<Longrightarrow> \<exists>s' c'. k s' c' = Some res"
proof (induction r arbitrary: s c k)
  case (Atom a)
  then show ?case by (auto simp: matcher.simps split: list.splits if_splits)
next
  case (Plus a)
  then obtain x xs where "rep (atom_ok a) xs (\<lambda>s'. k s' c) = Some res"
    by (auto simp: matcher.simps split: list.splits if_splits)
  from rep_result [OF this] show ?case by blast
next
  case (Seq r1 r2)
  from Seq.prems obtain s1 c1 where "matcher r2 s1 c1 k = Some res"
    using Seq.IH(1) by (fastforce simp: matcher.simps)
  then show ?case by (rule Seq.IH(2))
next
  case (Group n r)
  then show ?case by (fastforce simp: matcher.simps)
next
  case (Opt r)
  show ?case
  proof (cases "matcher r s c (\<lambda>s' c'. if length s' = length s then None else k s' c')")
    case None
    then show ?thesis using Opt.prems by (auto simp: matcher.simps)
  next
    case (Some x)
    then have "x = res" using Opt.prems by (simp add: matcher.simps)
    with Some Opt.IH obtain s' c' where
      "(if length s' = length s then None else k s' c') = Some res" by blast
    then show ?thesis by (auto split: if_splits)
  qed
next
  case Empty
  then show ?case by (auto simp: matcher.simps)
next
  case (Alt r1 r2)
  then show ?case by (auto simp: matcher.simps split: option.splits)
qed

lemma match_here_length: "match_here r s = Some (w, c) \<Longrightarrow> length w \<le> length s"
  unfolding match_here_def by (drule matcher_result) auto

lemma search_bounds:
  "search r s i0 = Some (i, w, c) \<Longrightarrow> i0 \<le> i \<and> i + length w \<le> i0 + length s"
proof (induction s arbitrary: i0)
  case Nil
  then show ?case by (auto split: option.splits dest: match_here_length)
next
  case (Cons x xs)
  show ?case
  proof (cases "match_here r (x # xs)")
    case None
    then have "search r xs (Suc i0) = Some (i, w, c)" using Cons.prems by simp
    from Cons.IH [OF this] show ?thesis by simp
  next
    case (Some y)
    then show ?thesis using Cons.prems by (cases y) (auto dest: match_here_length)
  qed
qed

lemma regexp_exec_moves:
  assumes "global R" and "regexp_exec R S = (Some (i, w, c), R')"
  shows "lastIndex R \<le> i \<and> i + length w \<le> length S \<and> R' = R\<lparr>lastIndex := i + length w\<rparr>"
proof -
  from assms have le: "lastIndex R \<le> length S"
    by (auto simp: regexp_exec_def Let_def split: if_splits)
  show ?thesis
  proof (cases "sticky R")
    case True
    with assms le obtain w' c' where
      "match_here (pattern R) (drop (lastIndex R) S) = Some (w', c')" "i = lastIndex R" "w = w'"
      "R' = R\<lparr>lastIndex := i + length w\<rparr>"
      by (auto simp: regexp_exec_def Let_def split: option.splits)
    then show ?thesis using le match_here_length [of "pattern R" "drop (lastIndex R) S" w' c']
      by auto
  next
    case False
    with assms le have s: "search (pattern R) (drop (lastIndex R) S) (lastIndex R) = Some (i, w, c)"
      and "R' = R\<lparr>lastIndex := i + length w\<rparr>"
      by (auto simp: regexp_exec_def Let_def split: option.splits)
    then show ?thesis using le search_bounds [OF s] by auto
  qed
qed

lemma match_loop_fuel:
  "global R \<Longrightarrow> lastIndex R \<le> length S + 1 \<Longrightarrow> length S + 2 \<le> n + lastIndex R
     \<Longrightarrow> match_loop (Suc n) R S A = match_loop n R S A"
proof (induction n arbitrary: R A)
  case 0
  then show ?case by simp
next
  case (Suc n)
  show ?case
  proof (cases "regexp_exec R S")
    case (Pair m R')
    show ?thesis
    proof (cases m)
      case None
      then show ?thesis using Pair by simp
    next
      case (Some y)
      obtain i w c where y: "y = (i, w, c)" by (cases y)
      from regexp_exec_moves [OF Suc.prems(1)] Pair Some y
      have mv: "lastIndex R \<le> i" "i + length w \<le> length S" "R' = R\<lparr>lastIndex := i + length w\<rparr>"
        by simp_all
      let ?R = "if w = [] then R'\<lparr>lastIndex := Suc (lastIndex R')\<rparr> else R'"
      have g: "global ?R" using mv(3) Suc.prems(1) by simp
      have "0 < length w" if "w \<noteq> []" using that by simp
      then have l: "lastIndex ?R \<le> length S + 1" "lastIndex R < lastIndex ?R"
        using mv by (auto simp del: length_greater_0_conv)
      have "match_loop (Suc n) ?R S (A @ [w]) = match_loop n ?R S (A @ [w])"
        using g l Suc.prems(3) by (intro Suc.IH) auto
      then show ?thesis using Pair Some y by simp
    qed
  qed
qed

lemma match_loop_enough:
  assumes "global R"
  shows "match_loop (length S + 2 + n) (R\<lparr>lastIndex := 0\<rparr>) S A
           = match_loop (length S + 2) (R\<lparr>lastIndex := 0\<rparr>) S A"
proof (induction n)
  case 0
  then show ?case by simp
next
  case (Suc n)
  have "match_loop (Suc (length S + 2 + n)) (R\<lparr>lastIndex := 0\<rparr>) S A
          = match_loop (length S + 2 + n) (R\<lparr>lastIndex := 0\<rparr>) S A"
    using assms by (intro match_loop_fuel) simp_all
  then show ?case using Suc by simp
qed

section \<open>The API calls of a run\<close>

lemmas run_simps = parse_def commandPart_def exec_def mentionRegex_def mentionPhrase_def
  compile_def consTerm_def disjunction_def
  commandRegex_def quotedPart_def match_here_def matcher.simps is_space_def canonicalize_def
  dquote_def prTitle_def trim_def substring_def indexOf_def plain_name_def syntax_chars_def

text \<open>
  C2. When the branch lookup or the creation of the pull request is rejected with an error
  \<open>e\<close>, the run posts exactly one comment, and its text is
  \<^verbatim>\<open>Failed to create pull request. Error: <message of e>.\<close> followed by
  \<^verbatim>\<open> One or more branches were not found.\<close> for status 404, by the sentence about
  non-existent branches for status 422, and by nothing for any other status.
\<close>

theorem failure_comment:
  assumes "plain_name appName"
    and "parse appName (commentBody ev) = Command cmd"
    and "api (GetBranch (owner ev) (repo ev) (sourceBranch cmd)) = Inl e \<or>
         (api (GetBranch (owner ev) (repo ev) (sourceBranch cmd)) = Inr x \<and>
          api (PullsCreate (owner ev) (repo ev) (title cmd) (sourceBranch cmd) (targetBranch cmd)
                 (''Pull request created by @'' @ commentAuthor ev @ '' via '' @ appName @ ''.'')) = Inl e)"
  shows "comments (fst (handler appName ev api)) =
     [''Failed to create pull request. Error: '' @ message e @ ''.'' @
       (if status e = Some 404 then '' One or more branches were not found.''
        else if status e = Some 422 then
          '' This could be due to non-existent branches, no differences between branches, or insufficient permissions.''
        else [])]"
  using assms(2,3)
  by (auto simp: handler_def execute_def catch_block_def finish_def errorMessage_def Let_def)

theorem failure_comment_witness:
  "plain_name ''om-bot'' \<and>
   parse ''om-bot''
     (''@om-bot create-pr feature/valid-branch main '' @ [dquote] @ ''Test API error'' @ [dquote])
     = Command \<lparr>sourceBranch = ''feature/valid-branch'', targetBranch = ''main'',
                 title = ''Test API error''\<rparr> \<and>
   comments (fst (handler ''om-bot''
      \<lparr>commentBody =
         ''@om-bot create-pr feature/valid-branch main '' @ [dquote] @ ''Test API error'' @ [dquote],
        commentAuthor = ''test-user'', owner = ''test-owner'', repo = ''test-repo'',
        issue_number = 123\<rparr>
      (\<lambda>c. if is_PullsCreate c then Inl \<lparr>message = ''API Error'', status = Some 422\<rparr> else Inr [])))
   = [''Failed to create pull request. Error: API Error. This could be due to non-existent branches, no differences between branches, or insufficient permissions.'']"
proof -
  have p: "plain_name ''om-bot''" by (simp add: run_simps)
  have c: "parse ''om-bot'' (commentBody
      \<lparr>commentBody =
         ''@om-bot create-pr feature/valid-branch main '' @ [dquote] @ ''Test API error'' @ [dquote],
        commentAuthor = ''test-user'', owner = ''test-owner'', repo = ''test-repo'',
        issue_number = 123\<rparr>)
     = Command \<lparr>sourceBranch = ''feature/valid-branch'', targetBranch = ''main'',
                 title = ''Test API error''\<rparr>"
    by (simp add: run_simps)
  show ?thesis
    using p c failure_comment [OF p c,
        of "\<lambda>c. if is_PullsCreate c then Inl \<lparr>message = ''API Error'', status = Some 422\<rparr> else Inr []"
           "\<lparr>message = ''API Error'', status = Some 422\<rparr>" "[]"]
    by simp
qed

text \<open>
  C3. When the branch lookup and the creation of the pull request both succeed, and the
  comment is accepted, the run makes three calls: the lookup of the source branch, the
  creation with head the source branch, base the target branch, the title of the command
  and a body that names the author of the comment, and one comment
  \<^verbatim>\<open>Successfully created pull request: <url>\<close> with the link that the creation returned.
\<close>

theorem success_comment:
  assumes "plain_name appName"
    and "parse appName (commentBody ev) = Command cmd"
    and "api (GetBranch (owner ev) (repo ev) (sourceBranch cmd)) = Inr x"
    and "api (PullsCreate (owner ev) (repo ev) (title cmd) (sourceBranch cmd) (targetBranch cmd)
                 (''Pull request created by @'' @ commentAuthor ev @ '' via '' @ appName @ ''.''))
           = Inr html_url"
    and "api (CreateComment (owner ev) (repo ev) (issue_number ev)
                 (''Successfully created pull request: '' @ html_url)) = Inr y"
  shows "handler appName ev api =
     ([GetBranch (owner ev) (repo ev) (sourceBranch cmd),
       PullsCreate (owner ev) (repo ev) (title cmd) (sourceBranch cmd) (targetBranch cmd)
         (''Pull request created by @'' @ commentAuthor ev @ '' via '' @ appName @ ''.''),
       CreateComment (owner ev) (repo ev) (issue_number ev)
         (''Successfully created pull request: '' @ html_url)], None)"
  using assms(2-5) by (simp add: handler_def execute_def Let_def)

theorem success_comment_witness:
  "plain_name ''om-bot'' \<and>
   parse ''om-bot''
     (''@om-bot create-pr feature/new-branch main '' @ [dquote] @ ''Add awesome feature'' @ [dquote])
     = Command \<lparr>sourceBranch = ''feature/new-branch'', targetBranch = ''main'',
                 title = ''Add awesome feature''\<rparr> \<and>
   handler ''om-bot''
      \<lparr>commentBody =
         ''@om-bot create-pr feature/new-branch main '' @ [dquote] @ ''Add awesome feature'' @ [dquote],
        commentAuthor = ''test-user'', owner = ''test-owner'', repo = ''test-repo'',
        issue_number = 123\<rparr>
      (\<lambda>c. Inr ''https://github.com/test-owner/test-repo/pull/1'')
   = ([GetBranch ''test-owner'' ''test-repo'' ''feature/new-branch'',
       PullsCreate ''test-owner'' ''test-repo'' ''Add awesome feature'' ''feature/new-branch'' ''main''
         ''Pull request created by @test-user via om-bot.'',
       CreateComment ''test-owner'' ''test-repo'' 123
         ''Successfully created pull request: https://github.com/test-owner/test-repo/pull/1''],
      None)"
proof -
  have p: "plain_name ''om-bot''" by (simp add: run_simps)
  have c: "parse ''om-bot'' (commentBody
      \<lparr>commentBody =
         ''@om-bot create-pr feature/new-branch main '' @ [dquote] @ ''Add awesome feature'' @ [dquote],
        commentAuthor = ''test-user'', owner = ''test-owner'', repo = ''test-repo'',
        issue_number = 123\<rparr>)
     = Command \<lparr>sourceBranch = ''feature/new-branch'', targetBranch = ''main'',
                 title = ''Add awesome feature''\<rparr>"
    by (simp add: run_simps)
  show ?thesis
    using p c success_comment [OF p c,
        of "\<lambda>c. Inr ''https://github.com/test-owner/test-repo/pull/1''"
           "''https://github.com/test-owner/test-repo/pull/1''"
           "''https://github.com/test-owner/test-repo/pull/1''"
           "''https://github.com/test-owner/test-repo/pull/1''"]
    by simp
qed

text \<open>
  C4. When the lookup of the source branch is rejected, the run never asks for the pull
  request: after the lookup it makes one call only, the comment with the failure message.
\<close>

theorem lookup_failure_skips_creation:
  assumes "plain_name appName"
    and "parse appName (commentBody ev) = Command cmd"
    and "api (GetBranch (owner ev) (repo ev) (sourceBranch cmd)) = Inl e"
  shows "list_all (\<lambda>c. \<not> is_PullsCreate c) (fst (handler appName ev api)) \<and>
         fst (handler appName ev api) =
           [GetBranch (owner ev) (repo ev) (sourceBranch cmd),
            CreateComment (owner ev) (repo ev) (issue_number ev) (errorMessage e)]"
  using assms(2,3) by (simp add: handler_def execute_def catch_block_def finish_def Let_def)

theorem lookup_failure_skips_creation_witness:
  "plain_name ''om-bot'' \<and>
   parse ''om-bot''
     (''@om-bot create-pr non-existent-branch main '' @ [dquote] @ ''Test failure'' @ [dquote])
     = Command \<lparr>sourceBranch = ''non-existent-branch'', targetBranch = ''main'',
                 title = ''Test failure''\<rparr> \<and>
   fst (handler ''om-bot''
      \<lparr>commentBody =
         ''@om-bot create-pr non-existent-branch main '' @ [dquote] @ ''Test failure'' @ [dquote],
        commentAuthor = ''test-user'', owner = ''test-owner'', repo = ''test-repo'',
        issue_number = 123\<rparr>
      (\<lambda>c. if is_GetBranch c then Inl \<lparr>message = ''Branch not found'', status = Some 404\<rparr>
            else Inr []))
   = [GetBranch ''test-owner'' ''test-repo'' ''non-existent-branch'',
      CreateComment ''test-owner'' ''test-repo'' 123
        ''Failed to create pull request. Error: Branch not found. One or more branches were not found.'']"
proof -
  have p: "plain_name ''om-bot''" by (simp add: run_simps)
  have c: "parse ''om-bot'' (commentBody
      \<lparr>commentBody =
         ''@om-bot create-pr non-existent-branch main '' @ [dquote] @ ''Test failure'' @ [dquote],
        commentAuthor = ''test-user'', owner = ''test-owner'', repo = ''test-repo'',
        issue_number = 123\<rparr>)
     = Command \<lparr>sourceBranch = ''non-existent-branch'', targetBranch = ''main'',
                 title = ''Test failure''\<rparr>"
    by (simp add: run_simps)
  show ?thesis
    using p c lookup_failure_skips_creation [OF p c,
        of "\<lambda>c. if is_GetBranch c then Inl \<lparr>message = ''Branch not found'', status = Some 404\<rparr>
                 else Inr []"
           "\<lparr>message = ''Branch not found'', status = Some 404\<rparr>"]
    by (simp add: errorMessage_def)
qed

section \<open>Parsing\<close>

text \<open>
  For a name without pattern syntax the mention expression is the phrase, and a body that
  does not contain the phrase anywhere, up to case, is not a mention: nothing is posted
  and no call is made.
\<close>

lemma not_mentioned_silent:
  assumes "plain_name appName"
    and "\<not> contains_phrase (''@'' @ appName @ '' create-pr'') (commentBody ev)"
  shows "parse appName (commentBody ev) = NotMentioned \<and> handler appName ev api = ([], None)"
proof -
  have "commandPart appName (commentBody ev) = None"
    using assms(2) by (simp add: commandPart_None_iff [OF assms(1)] mentionPhrase_def)
  then have "parse appName (commentBody ev) = NotMentioned" by (simp add: parse_def)
  then show ?thesis by (simp add: handler_def)
qed

text \<open>
  C6. The claim: a body that does not contain the phrase \<^verbatim>\<open>@<appName> create-pr\<close>, up to case,
  is not a mention, and no call is made. The handler passes the name to \<^verbatim>\<open>new RegExp\<close> as
  it is, so a name with pattern syntax is read as a pattern: with the name \<^verbatim>\<open>om.bot\<close> the dot
  stands for any character, the body \<^verbatim>\<open>@omXbot create-pr a b c\<close>, which does not contain
  the phrase \<^verbatim>\<open>@om.bot create-pr\<close>, is taken for a command, and the pull request is created.
  (The usage text and the README present the name as the text to write after \<^verbatim>\<open>@\<close>.)
\<close>

theorem dot_name_matches_other_text:
  "\<not> contains_phrase (''@'' @ ''om.bot'' @ '' create-pr'') ''@omXbot create-pr a b c'' \<and>
   parse ''om.bot'' ''@omXbot create-pr a b c''
     = Command \<lparr>sourceBranch = ''a'', targetBranch = ''b'', title = ''c''\<rparr> \<and>
   fst (handler ''om.bot''
     \<lparr>commentBody = ''@omXbot create-pr a b c'', commentAuthor = ''u'', owner = ''o'',
      repo = ''r'', issue_number = 1\<rparr> (accepting ''l''))
   = [GetBranch ''o'' ''r'' ''a'',
      PullsCreate ''o'' ''r'' ''c'' ''a'' ''b'' ''Pull request created by @u via om.bot.'',
      CreateComment ''o'' ''r'' 1 ''Successfully created pull request: l'']"
proof -
  have "\<not> contains_phrase (''@'' @ ''om.bot'' @ '' create-pr'') ''@omXbot create-pr a b c''"
    by (simp add: occursI_iff [symmetric] canonicalize_def)
  moreover have "parse ''om.bot'' ''@omXbot create-pr a b c''
     = Command \<lparr>sourceBranch = ''a'', targetBranch = ''b'', title = ''c''\<rparr>"
    by (simp add: run_simps)
  ultimately show ?thesis by (simp add: handler_def execute_def accepting_def)
qed

text \<open>
  For a name without pattern syntax and a body \<^verbatim>\<open>@<appName> create-pr A B "T"\<close>, with \<open>A\<close> and
  \<open>B\<close> non-empty and free of white space and \<open>T\<close> non-empty and free of double quotes, the
  parsing section yields the command with source branch \<open>A\<close>, target branch \<open>B\<close> and title
  \<open>T\<close>.
\<close>

lemma quoted_command_parsed:
  assumes "plain_name appName"
    and "A \<noteq> []" "list_all (\<lambda>c. \<not> is_space c) A"
    and "B \<noteq> []" "list_all (\<lambda>c. \<not> is_space c) B"
    and "T \<noteq> []" "dquote \<notin> set T"
  shows "parse appName
           (''@'' @ appName @ '' create-pr '' @ A @ '' '' @ B @ '' '' @ [dquote] @ T @ [dquote])
         = Command \<lparr>sourceBranch = A, targetBranch = B, title = T\<rparr>"
proof -
  let ?cp = "A @ '' '' @ B @ '' '' @ dquote # T @ dquote # []"
  have sp: "is_space CHR '' ''" by (simp add: is_space_def)
  have body: "''@'' @ appName @ '' create-pr '' @ A @ '' '' @ B @ '' '' @ [dquote] @ T @ [dquote]
               = mentionPhrase appName @ '' '' @ ?cp"
    by (simp add: mentionPhrase_def)
  have "trimmed ?cp"
    using assms(2,3) dquote_not_space by (cases A) (simp_all add: trimmed_def)
  then have "trim ('' '' @ ?cp) = ?cp"
    using trim_leading [of "'' ''" ?cp] sp by (simp add: trim_trimmed)
  then have cp: "commandPart appName (mentionPhrase appName @ '' '' @ ?cp) = Some ?cp"
    by (simp only: commandPart_prefix [OF assms(1)])
  have "match_here commandRegex ?cp
          = Some (A @ '' '' @ B @ '' '' @ dquote # T @ [dquote], [1 \<mapsto> A, 2 \<mapsto> B, 3 \<mapsto> T])"
    using assms sp by (intro command_match_quoted) simp_all
  then have "exec commandRegex ?cp
          = Some (0, A @ '' '' @ B @ '' '' @ dquote # T @ [dquote], [1 \<mapsto> A, 2 \<mapsto> B, 3 \<mapsto> T])"
    unfolding exec_def by (rule search_hit)
  then show ?thesis
    unfolding body using cp assms(2,4,6) by (simp add: parse_def prTitle_def)
qed

text \<open>
  C7. The claim: every body \<^verbatim>\<open>@<appName> create-pr A B "T"\<close> of that shape yields the command
  with \<open>A\<close>, \<open>B\<close> and \<open>T\<close>. The handler passes the name to \<^verbatim>\<open>new RegExp\<close> as it is: with the
  name \<^verbatim>\<open>om-bot[bot]\<close> the brackets make a class that stands for one of the characters b, o
  and t, the pattern does not match the name as it is written, and the body
  \<^verbatim>\<open>@om-bot[bot] create-pr A B "T"\<close> is not a mention.
\<close>

theorem bracket_name_misses_own_mention:
  "parse ''om-bot[bot]''
     (''@'' @ ''om-bot[bot]'' @ '' create-pr '' @ ''A'' @ '' '' @ ''B'' @ '' '' @ [dquote] @ ''T'' @ [dquote])
   = NotMentioned \<and>
   handler ''om-bot[bot]''
     \<lparr>commentBody =
        ''@'' @ ''om-bot[bot]'' @ '' create-pr '' @ ''A'' @ '' '' @ ''B'' @ '' '' @ [dquote] @ ''T'' @ [dquote],
      commentAuthor = ''u'', owner = ''o'', repo = ''r'', issue_number = 1\<rparr> (accepting ''l'')
   = ([], None)"
proof -
  have "parse ''om-bot[bot]''
     (''@'' @ ''om-bot[bot]'' @ '' create-pr '' @ ''A'' @ '' '' @ ''B'' @ '' '' @ [dquote] @ ''T'' @ [dquote])
   = NotMentioned"
    by (simp add: run_simps)
  then show ?thesis by (simp add: handler_def)
qed

text \<open>
  C1. The claim: when the text after the second token is not quoted, the title is that
  text, trimmed. The handler takes the start of the title from
  \<^verbatim>\<open>parts[0].indexOf(parts[2])\<close>, the first place where the text of the second token occurs
  in the match, and that place lies inside the first token when the target branch is part
  of the name of the source branch. For \<^verbatim>\<open>@om-bot create-pr dev-feature dev Add login\<close> the
  tokens after the mention are \<^verbatim>\<open>dev-feature\<close>, \<^verbatim>\<open>dev\<close>, \<^verbatim>\<open>Add\<close>, \<^verbatim>\<open>login\<close>, and the title
  is \<^verbatim>\<open>-feature dev Add login\<close>, not \<^verbatim>\<open>Add login\<close>. (Where the second token does not occur
  in the first, lemma \<open>unquoted_title\<close> gives the title of the claim.)
\<close>

theorem unquoted_title_first_occurrence:
  "commandPart ''om-bot'' ''@om-bot create-pr dev-feature dev Add login''
     = Some ''dev-feature dev Add login'' \<and>
   tokens ''dev-feature dev Add login'' = [''dev-feature'', ''dev'', ''Add'', ''login''] \<and>
   parse ''om-bot'' ''@om-bot create-pr dev-feature dev Add login''
     = Command \<lparr>sourceBranch = ''dev-feature'', targetBranch = ''dev'',
                 title = ''-feature dev Add login''\<rparr>"
  by (simp add: run_simps)

text \<open>
  C5, as the specification states it, fails: a quoted title of white space only is empty
  after trimming, and the handler goes on to the API calls with it.
\<close>

theorem blank_quoted_title_accepted:
  "trim '' '' = [] \<and>
   parse ''om-bot'' (''@om-bot create-pr a b '' @ [dquote] @ '' '' @ [dquote])
     = Command \<lparr>sourceBranch = ''a'', targetBranch = ''b'', title = '' ''\<rparr> \<and>
   fst (handler ''om-bot''
     \<lparr>commentBody = ''@om-bot create-pr a b '' @ [dquote] @ '' '' @ [dquote],
      commentAuthor = ''u'', owner = ''o'', repo = ''r'', issue_number = 1\<rparr> (accepting ''l''))
   = [GetBranch ''o'' ''r'' ''a'',
      PullsCreate ''o'' ''r'' '' '' ''a'' ''b'' ''Pull request created by @u via om-bot.'',
      CreateComment ''o'' ''r'' 1 ''Successfully created pull request: l'']"
  by (simp add: run_simps handler_def execute_def accepting_def)

text \<open>
  C5, amended. When the body contains the mention phrase and the text after it has fewer
  than two tokens, or exactly two tokens of which the second does not occur inside the
  first, the outcome is \<open>Malformed\<close>: the run consists of one comment with the usage
  text, and neither the branch lookup nor the creation of a pull request is called.
\<close>

theorem malformed_usage_comment:
  assumes "plain_name appName"
    and "commandPart appName (commentBody ev) = Some cp"
    and "length (tokens cp) < 2 \<or> (tokens cp = [t1, t2] \<and> \<not> sublist t2 t1)"
  shows "parse appName (commentBody ev) = Malformed \<and>
         fst (handler appName ev api) =
           [CreateComment (owner ev) (repo ev) (issue_number ev)
              (''Invalid command format. Please use: @'' @ appName @
               '' create-pr <source-branch> <target-branch> '' @ [dquote] @ ''<PR title>'' @ [dquote])]"
proof -
  have "trimmed cp" using assms(2) by (rule commandPart_trimmed)
  then have "parse appName (commentBody ev) = Malformed"
  proof (cases rule: trimmed_cases)
    case empty
    then show ?thesis using parse_few [OF assms(2)] by blast
  next
    case one
    then show ?thesis using parse_few [OF assms(2)] by blast
  next
    case (more a w b rest)
    have tk: "tokens cp = a # b # tokens rest"
      unfolding more(1) using more(2-8) by (rule tokens_two)
    with assms(3) have ab: "a = t1" "b = t2" "tokens rest = []" and ns: "\<not> sublist t2 t1"
      by auto
    from ab(3) have "list_all is_space rest" by (simp add: tokens_Nil_iff)
    then have rest: "rest = []"
      using more(9) by (cases "rest = []") (auto simp: list_all_iff)
    have "parse appName (commentBody ev) =
       (if trim (substring (a @ w @ b @ rest) (indexOf (a @ w @ b) b + int (length b))) = []
        then Malformed
        else Command \<lparr>sourceBranch = a, targetBranch = b,
               title = trim (substring (a @ w @ b @ rest) (indexOf (a @ w @ b) b + int (length b)))\<rparr>)"
      using assms(2) more(2-8) unfolding more(1)
      by (rule parse_unquoted) (simp add: rest quotedTitle_Nil)
    moreover have "trim (substring (a @ w @ b @ rest) (indexOf (a @ w @ b) b + int (length b))) = trim rest"
      using more(6,7,4,5) ns ab by (intro trailing_text) simp_all
    ultimately show ?thesis by (simp add: rest trim_def)
  qed
  then show ?thesis by (simp add: handler_def finish_def usageText_def)
qed

theorem malformed_usage_comment_witness:
  "plain_name ''om-bot'' \<and>
   commandPart ''om-bot'' ''@om-bot create-pr feature-branch main'' = Some ''feature-branch main'' \<and>
   (length (tokens ''feature-branch main'') < 2 \<or>
    (tokens ''feature-branch main'' = [''feature-branch'', ''main''] \<and>
     \<not> sublist ''main'' ''feature-branch'')) \<and>
   parse ''om-bot'' ''@om-bot create-pr feature-branch main'' = Malformed \<and>
   fst (handler ''om-bot''
     \<lparr>commentBody = ''@om-bot create-pr feature-branch main'', commentAuthor = ''test-user'',
      owner = ''test-owner'', repo = ''test-repo'', issue_number = 123\<rparr> (\<lambda>c. Inr []))
   = [CreateComment ''test-owner'' ''test-repo'' 123
        (''Invalid command format. Please use: @om-bot create-pr <source-branch> <target-branch> ''
         @ [dquote] @ ''<PR title>'' @ [dquote])]"
proof -
  have p: "plain_name ''om-bot''" by (simp add: run_simps)
  have c: "commandPart ''om-bot''
      (commentBody \<lparr>commentBody = ''@om-bot create-pr feature-branch main'',
         commentAuthor = ''test-user'', owner = ''test-owner'', repo = ''test-repo'',
         issue_number = 123\<rparr>) = Some ''feature-branch main''"
    by (simp add: run_simps)
  have t: "length (tokens ''feature-branch main'') < 2 \<or>
    (tokens ''feature-branch main'' = [''feature-branch'', ''main''] \<and>
     \<not> sublist ''main'' ''feature-branch'')"
    by (simp add: is_space_def sublist_Cons_right)
  show ?thesis
    using p c t malformed_usage_comment [OF p c t, of "\<lambda>c. Inr []"] by simp
qed




text \<open>
  C9. Parsing is deterministic, and no state is read or written between runs. A run of
  the parsing section (\<open>parse_run\<close>: lines 76 to 98, with the two RegExp objects and their
  \<^verbatim>\<open>lastIndex\<close> as state) yields \<open>parse appName body\<close>, a function of the mention name and
  the comment body alone, and leaves both objects as it created them. More: whatever
  \<^verbatim>\<open>lastIndex\<close> the two objects hold when the section starts, the section yields that same
  outcome and leaves the objects as they were. So two runs on the same inputs, the second
  on new objects or on the objects of the first, yield the same outcome.
\<close>

theorem parse_run_deterministic:
  "parse_run appName body
     = (parse appName body, RegExp (mentionRegex appName) ''i'', RegExp commandRegex []) \<and>
   parsing ((RegExp (mentionRegex appName) ''i'')\<lparr>lastIndex := a\<rparr>)
           ((RegExp commandRegex [])\<lparr>lastIndex := b\<rparr>) body
     = (parse appName body,
        (RegExp (mentionRegex appName) ''i'')\<lparr>lastIndex := a\<rparr>,
        (RegExp commandRegex [])\<lparr>lastIndex := b\<rparr>)"
proof -
  have "(RegExp (mentionRegex appName) ''i'')\<lparr>lastIndex := 0\<rparr> = RegExp (mentionRegex appName) ''i''"
    and "(RegExp commandRegex [])\<lparr>lastIndex := 0\<rparr> = RegExp commandRegex []"
    by (simp_all add: RegExp_def)
  then have "parse_run appName body
     = (parse appName body, RegExp (mentionRegex appName) ''i'', RegExp commandRegex [])"
    using parsing_stateless [where a = 0 and b = 0 and appName = appName and body = body]
    by (simp add: parse_run_def)
  then show ?thesis using parsing_stateless by blast
qed

text \<open>
  For a name without pattern syntax and without \<^verbatim>\<open>@\<close>, the mention is detected only with
  exactly one space character between \<^verbatim>\<open>@<appName>\<close> and \<^verbatim>\<open>create-pr\<close>: a body in which the two
  are separated by any other run of white space, or by none, and in which the phrase does
  not occur before or after that place, is not a mention, and nothing is posted.
\<close>

lemma single_space_required:
  assumes "plain_name appName" and "CHR ''@'' \<notin> set appName"
    and "commentBody ev = pre @ ''@'' @ appName @ sep @ ''create-pr'' @ post"
    and "list_all is_space sep" and "sep \<noteq> '' ''"
    and "\<not> contains_phrase (''@'' @ appName @ '' create-pr'') pre"
    and "\<not> contains_phrase (''@'' @ appName @ '' create-pr'') post"
  shows "parse appName (commentBody ev) = NotMentioned \<and> handler appName ev api = ([], None)"
proof -
  let ?p = "appName @ '' create-pr''"
  let ?P = "CHR ''@'' # ?p"
  have P: "''@'' @ appName @ '' create-pr'' = ?P" by simp
  have np: "CHR ''@'' \<notin> set ?p" using assms(2) by simp
  have "CHR ''@'' \<notin> set sep" using assms(4) at_not_space by (auto simp: list_all_iff)
  then have "CHR ''@'' \<notin> set (appName @ sep @ ''create-pr'')" using assms(2) by simp
  then have "occursI ?P ((appName @ sep @ ''create-pr'') @ post) = occursI ?P post"
    by (rule occursI_skip)
  moreover have "\<not> occursI ?P post" using assms(7) by (simp add: occursI_iff)
  ultimately have tail: "\<not> occursI ?P (appName @ sep @ ''create-pr'' @ post)" by simp
  have "\<not> prefixI ?p (appName @ sep @ ''create-pr'' @ post)"
    using prefixI_separator [OF assms(4,5)] by (simp only: prefixI_same) simp
  then have here: "\<not> occursI ?P (CHR ''@'' # appName @ sep @ ''create-pr'' @ post)"
    using tail by simp
  have "\<not> occursI ?P pre" using assms(6) by (simp add: occursI_iff)
  then have "occursI ?P (pre @ CHR ''@'' # appName @ sep @ ''create-pr'' @ post)
          = occursI ?P (CHR ''@'' # appName @ sep @ ''create-pr'' @ post)"
    by (rule occursI_before [OF np])
  with here have "\<not> occursI (mentionPhrase appName) (commentBody ev)"
    by (simp add: mentionPhrase_def assms(3))
  then have "commandPart appName (commentBody ev) = None"
    by (simp add: commandPart_None_iff [OF assms(1)] occursI_iff)
  then have "parse appName (commentBody ev) = NotMentioned" by (simp add: parse_def)
  then show ?thesis by (simp add: handler_def)
qed

text \<open>
  C10. The claim: a body in which \<^verbatim>\<open>@<appName>\<close> and \<^verbatim>\<open>create-pr\<close> are separated by white space
  other than one space is not a mention, and nothing is posted. The handler passes the
  name to \<^verbatim>\<open>new RegExp\<close> as it is: with the name \<^verbatim>\<open>a|b\<close> the pattern is the disjunction of
  \<^verbatim>\<open>@a\<close> and \<^verbatim>\<open>b create-pr\<close>, its left side matches the start of the body
  \<^verbatim>\<open>@a|b<TAB>create-pr\<close>, and the usage comment is posted.
\<close>

theorem disjunction_name_accepts_tab:
  "list_all is_space [CHR 0x09] \<and> [CHR 0x09] \<noteq> '' '' \<and>
   parse ''a|b'' (''@'' @ ''a|b'' @ [CHR 0x09] @ ''create-pr'') = Malformed \<and>
   fst (handler ''a|b''
     \<lparr>commentBody = ''@'' @ ''a|b'' @ [CHR 0x09] @ ''create-pr'', commentAuthor = ''u'',
      owner = ''o'', repo = ''r'', issue_number = 1\<rparr> (accepting ''l''))
   = [CreateComment ''o'' ''r'' 1
        (''Invalid command format. Please use: @a|b create-pr <source-branch> <target-branch> ''
         @ [dquote] @ ''<PR title>'' @ [dquote])]"
proof -
  have "parse ''a|b'' (''@'' @ ''a|b'' @ [CHR 0x09] @ ''create-pr'') = Malformed"
    by (simp add: run_simps)
  then show ?thesis by (simp add: handler_def finish_def usageText_def is_space_def)
qed

end
